theory Spec2Isabelle
  imports Main "HOL-Library.AList"
begin

section \<open>Strings\<close>

text \<open>
  A Python \<open>str\<close> is a sequence of Unicode code points. A code point is modelled as a
  natural number and a string as the list of its code points; \<open>ustr\<close> reads an ASCII
  literal as such a string.
\<close>

type_synonym codepoint = nat
type_synonym str = "codepoint list"

definition ustr :: "string \<Rightarrow> str" where
  "ustr s = map of_char s"

text \<open>
  \<open>isspace\<close> is the whitespace class of CPython (\<open>Py_UNICODE_ISSPACE\<close>): the one used
  by \<open>str.split()\<close>, by \<open>str.strip()\<close> and by the class \<open>\s\<close> of a \<open>str\<close> pattern.
\<close>

definition isspace :: "codepoint \<Rightarrow> bool" where
  "isspace c \<longleftrightarrow>
     (9 \<le> c \<and> c \<le> 13) \<or> (28 \<le> c \<and> c \<le> 32) \<or> c = 133 \<or> c = 160 \<or> c = 5760 \<or>
     (8192 \<le> c \<and> c \<le> 8202) \<or> c = 8232 \<or> c = 8233 \<or> c = 8239 \<or> c = 8287 \<or> c = 12288"

text \<open>\<open>s.strip()\<close>: whitespace removed at both ends.\<close>

definition strip :: "str \<Rightarrow> str" where
  "strip s = rev (dropWhile isspace (rev (dropWhile isspace s)))"

text \<open>
  \<open>s.split()\<close> with no argument: skip whitespace, take the maximal run of other
  characters as a word, go on after it. No word is empty.
\<close>

function split :: "str \<Rightarrow> str list" where
  "split s =
     (let s' = dropWhile isspace s
      in if s' = [] then []
         else takeWhile (\<lambda>c. \<not> isspace c) s' # split (dropWhile (\<lambda>c. \<not> isspace c) s'))"
  by pat_completeness auto
termination
proof (relation "measure length", simp)
  fix s s' :: str
  assume s': "s' = dropWhile isspace s" and ne: "s' \<noteq> []"
  from ne obtain x xs where c: "s' = x # xs" by (cases s') auto
  from s' c have "\<not> isspace x"
    by (metis hd_dropWhile list.sel(1) ne)
  then have "length (dropWhile (\<lambda>c. \<not> isspace c) s') \<le> length xs"
    by (simp add: c length_dropWhile_le)
  moreover have "length s' \<le> length s"
    by (simp add: s' length_dropWhile_le)
  ultimately show "(dropWhile (\<lambda>c. \<not> isspace c) s', s) \<in> measure length"
    by (simp add: c)
qed

declare split.simps [simp del]

text \<open>
  \<open>re.sub(r"C+", " ", text)\<close> for a character class \<open>C\<close>: scanning from the left, a
  character of the class starts a match that takes the whole run (the quantifier is
  greedy), and the run is replaced by one space (code point 32).
\<close>

function sub_runs :: "(codepoint \<Rightarrow> bool) \<Rightarrow> str \<Rightarrow> str" where
  "sub_runs P [] = []"
| "sub_runs P (c # cs) =
     (if P c then 32 # sub_runs P (dropWhile P cs) else c # sub_runs P cs)"
  by pat_completeness auto
termination
  by (relation "measure (\<lambda>(P, s). length s)") (auto simp: less_Suc_eq_le length_dropWhile_le)

text \<open>\<open>re.sub(r"[^\w\s]", " ", text)\<close>: each single character outside both classes
  becomes a space.\<close>

definition sub_punct :: "(codepoint \<Rightarrow> bool) \<Rightarrow> str \<Rightarrow> str" where
  "sub_punct word text = map (\<lambda>c. if \<not> word c \<and> \<not> isspace c then 32 else c) text"

section \<open>Tokenization\<close>

definition STOPWORDS_EN :: "str set" where
  "STOPWORDS_EN = set (map ustr
    [''a'', ''an'', ''and'', ''are'', ''as'', ''at'', ''be'', ''by'', ''for'', ''from'', ''has'', ''he'',
     ''in'', ''is'', ''it'', ''its'', ''of'', ''on'', ''that'', ''the'', ''to'', ''was'', ''were'', ''will'',
     ''with'', ''this'', ''these'', ''those'', ''or'', ''not'', ''but'', ''we'', ''you'', ''your'', ''our''])"

definition STOPWORDS_ID :: "str set" where
  "STOPWORDS_ID = set (map ustr
    [''yang'', ''dan'', ''di'', ''ke'', ''dari'', ''untuk'', ''pada'', ''dengan'', ''adalah'', ''itu'', ''ini'',
     ''ada'', ''atau'', ''tidak'', ''saya'', ''kami'', ''kita'', ''anda'', ''dia'', ''mereka'', ''sebagai'',
     ''sebuah'', ''para'', ''dalam'', ''ke'', ''sebuah'', ''akan'', ''lagi'', ''serta'', ''atau''])"

text \<open>
  \<open>tokenize\<close> consults the Unicode character database of the Python runtime in three
  places: \<open>str.lower()\<close>, the class \<open>\d\<close> and the class \<open>\w\<close>. The tables are not part of
  the program; they are a parameter of the model.
\<close>

record unicode =
  to_lower :: "str \<Rightarrow> str"
  is_digit :: "codepoint \<Rightarrow> bool"
  is_word :: "codepoint \<Rightarrow> bool"

definition tokenize ::
  "unicode \<Rightarrow> str \<Rightarrow> bool \<Rightarrow> bool \<Rightarrow> bool \<Rightarrow> str \<Rightarrow> bool \<Rightarrow> str list" where
  "tokenize U text lowercase remove_digits remove_punct lang use_stop =
     (let text = (if lowercase then to_lower U text else text);
          text = (if remove_digits then sub_runs (is_digit U) text else text);
          text = (if remove_punct then sub_punct (is_word U) text else text);
          text = strip (sub_runs isspace text);
          tokens = (if text \<noteq> [] then split text else []);
          tokens = (if use_stop
                    then (let sw = (if lang = ustr ''id'' then STOPWORDS_ID else STOPWORDS_EN)
                          in filter (\<lambda>t. t \<notin> sw) tokens)
                    else tokens)
      in tokens)"

text \<open>The keyword arguments of \<open>tokenize\<close>, as \<open>build_inverted_index\<close> passes them on.\<close>

record tokkw =
  lowercase :: bool
  remove_digits :: bool
  remove_punct :: bool
  lang :: str
  use_stop :: bool

definition tokenize_kw :: "unicode \<Rightarrow> str \<Rightarrow> tokkw \<Rightarrow> str list" where
  "tokenize_kw U text kw =
     tokenize U text (lowercase kw) (remove_digits kw) (remove_punct kw) (lang kw) (use_stop kw)"

text \<open>
  The entries of the database for two blocks, to run the functions on concrete texts:
  Basic Latin (U+0000 to U+007F) and the Arabic-Indic digits (U+0660 to U+0669), which
  are decimal digits (category Nd) and word characters for Python. Texts outside the
  two blocks are not meant to be run with it.
\<close>

definition ascii_lower :: "codepoint \<Rightarrow> codepoint" where
  "ascii_lower c = (if 65 \<le> c \<and> c \<le> 90 then c + 32 else c)"

definition ascii_digit :: "codepoint \<Rightarrow> bool" where
  "ascii_digit c \<longleftrightarrow> 48 \<le> c \<and> c \<le> 57"

definition ascii_word :: "codepoint \<Rightarrow> bool" where
  "ascii_word c \<longleftrightarrow>
     (48 \<le> c \<and> c \<le> 57) \<or> (65 \<le> c \<and> c \<le> 90) \<or> c = 95 \<or> (97 \<le> c \<and> c \<le> 122)"

definition arabic_indic_digit :: "codepoint \<Rightarrow> bool" where
  "arabic_indic_digit c \<longleftrightarrow> 1632 \<le> c \<and> c \<le> 1641"

definition unicode_sample :: unicode where
  "unicode_sample =
     \<lparr> to_lower = map ascii_lower,
       is_digit = (\<lambda>c. ascii_digit c \<or> arabic_indic_digit c),
       is_word = (\<lambda>c. ascii_word c \<or> arabic_indic_digit c) \<rparr>"

text \<open>
  What the results on ASCII texts need of the database: on strings of Basic Latin it
  lowers the capital letters A to Z and nothing else, and within Basic Latin the digits
  are 0 to 9 and the word characters are the digits, the letters and the underscore.
  Python's database is of this kind, and so is \<open>unicode_sample\<close>.
\<close>

definition basic_latin :: "unicode \<Rightarrow> bool" where
  "basic_latin U \<longleftrightarrow>
     (\<forall>s. (\<forall>c \<in> set s. c < 128) \<longrightarrow> to_lower U s = map ascii_lower s) \<and>
     (\<forall>c < 128. is_digit U c = ascii_digit c) \<and>
     (\<forall>c < 128. is_word U c = ascii_word c)"

section \<open>The normalizer of the specification\<close>

text \<open>
  The pipeline as the specification words it, written independently of \<open>tokenize\<close>,
  to compare the two. A run of characters of a class is replaced by a single space by
  a scan that remembers whether it is inside a run; the words are collected by a scan
  that holds the word read so far (in reverse). The class of digits is a parameter: the
  specification names the ASCII digits.
\<close>

fun reference_squeeze :: "(codepoint \<Rightarrow> bool) \<Rightarrow> bool \<Rightarrow> str \<Rightarrow> str" where
  "reference_squeeze P in_run [] = []"
| "reference_squeeze P in_run (c # cs) =
     (if P c then (if in_run then reference_squeeze P True cs
                   else 32 # reference_squeeze P True cs)
      else c # reference_squeeze P False cs)"

fun reference_words :: "str \<Rightarrow> str \<Rightarrow> str list" where
  "reference_words w [] = (if w = [] then [] else [rev w])"
| "reference_words w (c # cs) =
     (if isspace c then (if w = [] then reference_words [] cs else rev w # reference_words [] cs)
      else reference_words (c # w) cs)"

definition reference_tokenize ::
  "(codepoint \<Rightarrow> bool) \<Rightarrow> unicode \<Rightarrow> str \<Rightarrow> bool \<Rightarrow> bool \<Rightarrow> bool \<Rightarrow> str \<Rightarrow> bool \<Rightarrow> str list" where
  "reference_tokenize digit U text fold_case strip_digits strip_punct language filter_stop =
     (let folded = (if fold_case then to_lower U text else text);
          no_digits = (if strip_digits then reference_squeeze digit False folded else folded);
          no_punct = (if strip_punct
                      then map (\<lambda>c. if is_word U c \<or> isspace c then c else 32) no_digits
                      else no_digits);
          trimmed = strip (reference_squeeze isspace False no_punct);
          tokens = reference_words [] trimmed;
          selected = (if language = ustr ''id'' then STOPWORDS_ID else STOPWORDS_EN)
      in if filter_stop then filter (\<lambda>t. t \<notin> selected) tokens else tokens)"

section \<open>The inverted index\<close>

text \<open>
  A dictionary is an association list in insertion order with distinct keys, read with
  \<open>map_of\<close> and written with \<open>AList.update\<close> (a new key goes to the end, an old one
  keeps its place). The key of a postings dictionary is an \<open>int\<close> in an index that was
  built and a \<open>str\<close> in one that was read from JSON, so both kinds are in the model.
\<close>

datatype key = IntKey int | StrKey str

record entry =
  df :: int
  postings :: "(key \<times> int list) list"

record inverted_index =
  index :: "(str \<times> entry) list"
  num_docs :: int

datatype py_error = IndexError | KeyError

text \<open>\<open>enumerate(xs)\<close>.\<close>

definition py_enumerate :: "'a list \<Rightarrow> (int \<times> 'a) list" where
  "py_enumerate xs = zip (map int [0..<length xs]) xs"

text \<open>
  The body of the inner loop: \<open>vocab[term]\<close> creates the entry of a new term,
  \<open>postings[doc_id]\<close> creates the list of a new document, \<open>append(pos)\<close> extends it.
\<close>

definition add_posting :: "key \<Rightarrow> int \<times> str \<Rightarrow> (str \<times> entry) list \<Rightarrow> (str \<times> entry) list" where
  "add_posting doc_id pt vocab =
     (let pos = fst pt; term = snd pt;
          e = (case map_of vocab term of None \<Rightarrow> \<lparr>df = 0, postings = []\<rparr> | Some e \<Rightarrow> e);
          plist = (case map_of (postings e) doc_id of None \<Rightarrow> [] | Some l \<Rightarrow> l)
      in AList.update term (e\<lparr>postings := AList.update doc_id (plist @ [pos]) (postings e)\<rparr>) vocab)"

definition index_doc ::
  "unicode \<Rightarrow> tokkw \<Rightarrow> int \<times> str \<Rightarrow> (str \<times> entry) list \<Rightarrow> (str \<times> entry) list" where
  "index_doc U kw dt vocab =
     fold (add_posting (IntKey (fst dt))) (py_enumerate (tokenize_kw U (snd dt) kw)) vocab"

definition set_df :: "str \<times> entry \<Rightarrow> str \<times> entry" where
  "set_df te = (fst te, (snd te)\<lparr>df := int (length (postings (snd te)))\<rparr>)"

definition build_inverted_index :: "unicode \<Rightarrow> str list \<Rightarrow> tokkw \<Rightarrow> inverted_index" where
  "build_inverted_index U docs kw =
     (let vocab = fold (index_doc U kw) (py_enumerate docs) [];
          vocab = map set_df vocab
      in \<lparr>index = vocab, num_docs = int (length docs)\<rparr>)"

text \<open>The \<open>cf\<close> column of \<open>vocabulary_stats\<close>.\<close>

definition cf :: "entry \<Rightarrow> int" where
  "cf e = sum_list (map (\<lambda>kp. int (length (snd kp))) (postings e))"

text \<open>
  To state what the builder stores: the positions that a vocabulary holds for a term and
  a document (none if either is missing), and the positions at which a term stands in a
  token sequence.
\<close>

definition lookup_positions :: "(str \<times> entry) list \<Rightarrow> str \<Rightarrow> key \<Rightarrow> int list" where
  "lookup_positions vocab term d =
     (case map_of vocab term of
        None \<Rightarrow> []
      | Some e \<Rightarrow> (case map_of (postings e) d of None \<Rightarrow> [] | Some l \<Rightarrow> l))"

definition positions_in :: "str \<Rightarrow> (int \<times> str) list \<Rightarrow> int list" where
  "positions_in term pts = map fst (filter (\<lambda>pt. snd pt = term) pts)"

text \<open>
  A vocabulary is well formed when it is a dictionary of dictionaries (distinct keys at
  both levels) in which no term is without a document and no document without a position.
\<close>

definition wf_vocab :: "(str \<times> entry) list \<Rightarrow> bool" where
  "wf_vocab vocab \<longleftrightarrow>
     distinct (map fst vocab) \<and>
     (\<forall>t e. map_of vocab t = Some e \<longrightarrow>
        distinct (map fst (postings e)) \<and> postings e \<noteq> [] \<and>
        (\<forall>d l. map_of (postings e) d = Some l \<longrightarrow> l \<noteq> []))"

section \<open>Boolean search\<close>

definition term_docs :: "inverted_index \<Rightarrow> str \<Rightarrow> key set" where
  "term_docs idx term =
     (case map_of (index idx) term of None \<Rightarrow> {} | Some e \<Rightarrow> set (map fst (postings e)))"

definition universe :: "inverted_index \<Rightarrow> key set" where
  "universe idx = IntKey ` {0..<num_docs idx}"

text \<open>
  The two stacks are lists whose head is the top: \<open>append\<close> is \<open>#\<close>, \<open>pop()\<close> takes the
  head and raises \<open>IndexError\<close> on the empty list, \<open>stack[-1]\<close> is the head.
\<close>

record stacks =
  out_stack :: "key set list"
  op_stack :: "str list"

definition prec :: "str \<Rightarrow> nat" where
  "prec tok =
     (if tok = ustr ''NOT'' then 3 else if tok = ustr ''AND'' then 2
      else if tok = ustr ''OR'' then 1 else 0)"

fun apply_op :: "inverted_index \<Rightarrow> stacks \<Rightarrow> py_error + stacks" where
  "apply_op idx st =
     (case op_stack st of
        [] \<Rightarrow> Inl IndexError
      | op # ops \<Rightarrow>
          if op = ustr ''NOT'' then
            (case out_stack st of
               [] \<Rightarrow> Inl IndexError
             | a # out \<Rightarrow> Inr \<lparr>out_stack = (universe idx - a) # out, op_stack = ops\<rparr>)
          else
            (case out_stack st of
               [] \<Rightarrow> Inl IndexError
             | b # out \<Rightarrow>
                 (case out of
                    [] \<Rightarrow> Inl IndexError
                  | a # out' \<Rightarrow>
                      if op = ustr ''AND'' then Inr \<lparr>out_stack = (a \<inter> b) # out', op_stack = ops\<rparr>
                      else if op = ustr ''OR'' then Inr \<lparr>out_stack = (a \<union> b) # out', op_stack = ops\<rparr>
                      else Inr \<lparr>out_stack = out', op_stack = ops\<rparr>)))"

text \<open>
  \<open>while op_stack and prec.get(op_stack[-1], 0) >= p: apply_op()\<close>; the final loop
  \<open>while op_stack: apply_op()\<close> is the same loop with \<open>p = 0\<close>.
\<close>

function reduce_ops :: "inverted_index \<Rightarrow> nat \<Rightarrow> stacks \<Rightarrow> py_error + stacks" where
  "reduce_ops idx p st =
     (if op_stack st \<noteq> [] \<and> prec (hd (op_stack st)) \<ge> p
      then (case apply_op idx st of Inl e \<Rightarrow> Inl e | Inr st' \<Rightarrow> reduce_ops idx p st')
      else Inr st)"
  by pat_completeness auto
termination
  by (relation "measure (\<lambda>(idx, p, st). length (op_stack st))")
     (auto split: list.splits if_splits)

declare reduce_ops.simps [simp del]

definition is_operator :: "str \<Rightarrow> bool" where
  "is_operator tok \<longleftrightarrow> tok = ustr ''AND'' \<or> tok = ustr ''OR'' \<or> tok = ustr ''NOT''"

text \<open>The body of \<open>for tok in tokens\<close>, and the loop; an exception ends it.\<close>

definition step :: "inverted_index \<Rightarrow> str \<Rightarrow> stacks \<Rightarrow> py_error + stacks" where
  "step idx tok st =
     (if is_operator tok
      then (case reduce_ops idx (prec tok) st of
              Inl e \<Rightarrow> Inl e
            | Inr st' \<Rightarrow> Inr (st'\<lparr>op_stack := tok # op_stack st'\<rparr>))
      else Inr (st\<lparr>out_stack := term_docs idx tok # out_stack st\<rparr>))"

fun run_tokens :: "inverted_index \<Rightarrow> str list \<Rightarrow> stacks \<Rightarrow> py_error + stacks" where
  "run_tokens idx [] st = Inr st"
| "run_tokens idx (tok # toks) st =
     (case step idx tok st of Inl e \<Rightarrow> Inl e | Inr st' \<Rightarrow> run_tokens idx toks st')"

definition boolean_search :: "str \<Rightarrow> inverted_index \<Rightarrow> py_error + key set" where
  "boolean_search query idx =
     (let tokens = split (strip query)
      in if tokens = [] then Inr {}
         else (case run_tokens idx tokens \<lparr>out_stack = [], op_stack = []\<rparr> of
                 Inl e \<Rightarrow> Inl e
               | Inr st \<Rightarrow>
                   (case reduce_ops idx 0 st of
                      Inl e \<Rightarrow> Inl e
                    | Inr st' \<Rightarrow> Inr (if out_stack st' \<noteq> [] then hd (out_stack st') else {}))))"

section \<open>Phrase search\<close>

text \<open>
  The loop over \<open>words[1:]\<close> that narrows \<open>candidate_docs\<close>; \<open>None\<close> is one of its two
  early \<open>return set()\<close>.
\<close>

fun narrow :: "inverted_index \<Rightarrow> str list \<Rightarrow> key set \<Rightarrow> key set option" where
  "narrow idx [] candidate_docs = Some candidate_docs"
| "narrow idx (w # ws) candidate_docs =
     (case map_of (index idx) w of
        None \<Rightarrow> None
      | Some e \<Rightarrow>
          (let candidate_docs = candidate_docs \<inter> set (map fst (postings e))
           in if candidate_docs = {} then None else narrow idx ws candidate_docs))"

text \<open>\<open>index["index"][w]["postings"][d]\<close>: each of the two subscripts raises \<open>KeyError\<close>
  on a missing key.\<close>

definition positions_of :: "inverted_index \<Rightarrow> key \<Rightarrow> str \<Rightarrow> py_error + int list" where
  "positions_of idx d w =
     (case map_of (index idx) w of
        None \<Rightarrow> Inl KeyError
      | Some e \<Rightarrow> (case map_of (postings e) d of None \<Rightarrow> Inl KeyError | Some l \<Rightarrow> Inr l))"

fun positions_lists :: "inverted_index \<Rightarrow> key \<Rightarrow> str list \<Rightarrow> py_error + int list list" where
  "positions_lists idx d [] = Inr []"
| "positions_lists idx d (w # ws) =
     (case positions_of idx d w of
        Inl e \<Rightarrow> Inl e
      | Inr l \<Rightarrow> (case positions_lists idx d ws of Inl e \<Rightarrow> Inl e | Inr ls \<Rightarrow> Inr (l # ls)))"

text \<open>
  \<open>shifted_sets\<close>: the positions of the first word, and for \<open>i\<close> from 1 the positions of
  word \<open>i\<close> less \<open>i\<close> (an integer subtraction: the difference may be negative).
\<close>

definition shifted_sets :: "int list list \<Rightarrow> int set list" where
  "shifted_sets pls =
     set (hd pls) # map (\<lambda>i. (\<lambda>p. p - int i) ` set (pls ! i)) [1..<length pls]"

text \<open>\<open>set.intersection(*sets)\<close> for at least one set.\<close>

definition intersection :: "int set list \<Rightarrow> int set" where
  "intersection sets = fold (\<lambda>s acc. acc \<inter> s) (tl sets) (hd sets)"

definition doc_matches :: "inverted_index \<Rightarrow> str list \<Rightarrow> key \<Rightarrow> py_error + bool" where
  "doc_matches idx words d =
     (case positions_lists idx d words of
        Inl e \<Rightarrow> Inl e
      | Inr pls \<Rightarrow> Inr (intersection (shifted_sets pls) \<noteq> {}))"

text \<open>
  The loop over \<open>candidate_docs\<close> visits the set in an order Python does not fix; an
  exception in any iteration ends the call, otherwise the result is the set of the
  documents that match.
\<close>

definition phrase_search :: "str \<Rightarrow> inverted_index \<Rightarrow> py_error + key set" where
  "phrase_search phrase idx =
     (let words = split phrase
      in if words = [] then Inr {}
         else (case map_of (index idx) (hd words) of
                 None \<Rightarrow> Inr {}
               | Some first \<Rightarrow>
                   (case narrow idx (tl words) (set (map fst (postings first))) of
                      None \<Rightarrow> Inr {}
                    | Some candidate_docs \<Rightarrow>
                        if \<exists>d \<in> candidate_docs. doc_matches idx words d = Inl KeyError
                        then Inl KeyError
                        else Inr {d \<in> candidate_docs. doc_matches idx words d = Inr True})))"

section \<open>Saving and loading the index\<close>

text \<open>
  \<open>json.dumps(index)\<close> writes a JSON document and \<open>json.loads\<close> reads one back. The
  model stops at the document: a tree of objects, arrays, numbers and strings. A JSON
  object has string keys, so \<open>dumps\<close> writes an \<open>int\<close> key as its decimal numeral, and
  \<open>loads\<close> returns every key as a \<open>str\<close>.
\<close>

datatype json = JInt int | JStr str | JArr "json list" | JObj "(str \<times> json) list"

fun digits :: "nat \<Rightarrow> str" where
  "digits n = (if n < 10 then [48 + n] else digits (n div 10) @ [48 + n mod 10])"

declare digits.simps [simp del]

definition repr_int :: "int \<Rightarrow> str" where
  "repr_int i = (if i < 0 then 45 # digits (nat (- i)) else digits (nat i))"

definition key_str :: "key \<Rightarrow> str" where
  "key_str k = (case k of IntKey i \<Rightarrow> repr_int i | StrKey s \<Rightarrow> s)"

definition postings_to_json :: "(key \<times> int list) list \<Rightarrow> json" where
  "postings_to_json ps = JObj (map (\<lambda>kp. (key_str (fst kp), JArr (map JInt (snd kp)))) ps)"

definition entry_to_json :: "entry \<Rightarrow> json" where
  "entry_to_json e =
     JObj [(ustr ''df'', JInt (df e)), (ustr ''postings'', postings_to_json (postings e))]"

definition json_dumps :: "inverted_index \<Rightarrow> json" where
  "json_dumps idx =
     JObj [(ustr ''index'', JObj (map (\<lambda>te. (fst te, entry_to_json (snd te))) (index idx))),
           (ustr ''num_docs'', JInt (num_docs idx))]"

text \<open>
  \<open>loads\<close> makes a dictionary of an object by inserting its members in order, so a
  repeated key keeps its first place and its last value. The loader accepts a document
  that has the members \<open>index\<close> and \<open>num_docs\<close>; a document that has them but is not of
  the shape of an index is outside the types of this model and is \<open>None\<close> here too.
\<close>

definition dict_of :: "('k \<times> 'v) list \<Rightarrow> ('k \<times> 'v) list" where
  "dict_of members = fold (\<lambda>kv d. AList.update (fst kv) (snd kv) d) members []"

definition load_int :: "json \<Rightarrow> int option" where
  "load_int j = (case j of JInt i \<Rightarrow> Some i | _ \<Rightarrow> None)"

definition load_positions :: "json \<Rightarrow> int list option" where
  "load_positions j = (case j of JArr js \<Rightarrow> those (map load_int js) | _ \<Rightarrow> None)"

definition load_members :: "(json \<Rightarrow> 'v option) \<Rightarrow> (str \<times> json) list \<Rightarrow> (str \<times> 'v) list option" where
  "load_members f members =
     those (map (\<lambda>kj. case f (snd kj) of None \<Rightarrow> None | Some v \<Rightarrow> Some (fst kj, v)) members)"

definition load_postings :: "json \<Rightarrow> (key \<times> int list) list option" where
  "load_postings j =
     (case j of
        JObj members \<Rightarrow>
          (case load_members load_positions members of
             None \<Rightarrow> None
           | Some kps \<Rightarrow> Some (dict_of (map (\<lambda>kp. (StrKey (fst kp), snd kp)) kps)))
      | _ \<Rightarrow> None)"

definition load_entry :: "json \<Rightarrow> entry option" where
  "load_entry j =
     (case j of
        JObj members \<Rightarrow>
          (case (map_of (dict_of members) (ustr ''df''), map_of (dict_of members) (ustr ''postings'')) of
             (Some d, Some ps) \<Rightarrow>
               (case (load_int d, load_postings ps) of
                  (Some d', Some ps') \<Rightarrow> Some \<lparr>df = d', postings = ps'\<rparr>
                | _ \<Rightarrow> None)
           | _ \<Rightarrow> None)
      | _ \<Rightarrow> None)"

definition load_index :: "json \<Rightarrow> inverted_index option" where
  "load_index j =
     (case j of
        JObj members \<Rightarrow>
          (case (map_of (dict_of members) (ustr ''index''), map_of (dict_of members) (ustr ''num_docs'')) of
             (Some (JObj terms), Some (JInt n)) \<Rightarrow>
               (case load_members load_entry terms of
                  None \<Rightarrow> None
                | Some tes \<Rightarrow> Some \<lparr>index = dict_of tes, num_docs = n\<rparr>)
           | _ \<Rightarrow> None)
      | _ \<Rightarrow> None)"

section \<open>Queries\<close>

text \<open>
  What the claims call a term of a query: a token that \<open>split\<close> returns whole (not
  empty, no whitespace in it) and that is not one of the three operators. \<open>join\<close> is
  \<open>sep.join(words)\<close>, to write a query from its tokens.
\<close>

definition is_token :: "str \<Rightarrow> bool" where
  "is_token w \<longleftrightarrow> w \<noteq> [] \<and> (\<forall>c \<in> set w. \<not> isspace c)"

definition is_term :: "str \<Rightarrow> bool" where
  "is_term w \<longleftrightarrow> is_token w \<and> \<not> is_operator w"

fun join :: "str \<Rightarrow> str list \<Rightarrow> str" where
  "join sep [] = []"
| "join sep [w] = w"
| "join sep (w # v # ws) = w @ sep @ join sep (v # ws)"

text \<open>The tokens of the query "w AND v1 AND ... AND vn" after the first.\<close>

definition and_chain :: "str list \<Rightarrow> str list" where
  "and_chain ws = concat (map (\<lambda>v. [ustr ''AND'', v]) ws)"

section \<open>The corpus of the scenarios\<close>

text \<open>
  The three documents of the specification's scenarios, the keyword arguments of
  scenario A (punctuation removal on, stopword filtering off, the rest as the caller
  gives it) and the index built from them with the defaults of \<open>tokenize\<close> for the rest.
\<close>

definition scenario_corpus :: "str list" where
  "scenario_corpus = [ustr ''the cat sat'', ustr ''the dog sat'', ustr ''cat and dog'']"

definition scenario_kw :: "bool \<Rightarrow> bool \<Rightarrow> str \<Rightarrow> tokkw" where
  "scenario_kw lc rd lng =
     \<lparr>lowercase = lc, remove_digits = rd, remove_punct = True, lang = lng, use_stop = False\<rparr>"

definition scenario_index :: inverted_index where
  "scenario_index =
     build_inverted_index unicode_sample scenario_corpus (scenario_kw True False (ustr ''id''))"

text \<open>
  An index whose terms include an operator word: with lowercasing off, the document
  "NOT cat" has the tokens NOT and cat.
\<close>

definition operator_word_index :: inverted_index where
  "operator_word_index =
     build_inverted_index unicode_sample [ustr ''NOT cat''] (scenario_kw False False (ustr ''id''))"

text \<open>What saving and loading does to an index: each key of a postings dictionary
  becomes the string that \<open>dumps\<close> writes for it.\<close>

definition stringify_postings :: "(key \<times> int list) list \<Rightarrow> (key \<times> int list) list" where
  "stringify_postings ps = map (\<lambda>kp. (StrKey (key_str (fst kp)), snd kp)) ps"

definition stringify_keys :: "inverted_index \<Rightarrow> inverted_index" where
  "stringify_keys idx =
     idx\<lparr>index := map (\<lambda>te. (fst te, (snd te)\<lparr>postings := stringify_postings (postings (snd te))\<rparr>))
                      (index idx)\<rparr>"

text \<open>The index of the scenarios after it was saved and loaded again.\<close>

definition scenario_loaded :: inverted_index where
  "scenario_loaded =
   \<lparr>index =
      [(ustr ''the'', \<lparr>df = 2, postings = [(StrKey (ustr ''0''), [0]), (StrKey (ustr ''1''), [0])]\<rparr>),
       (ustr ''cat'', \<lparr>df = 2, postings = [(StrKey (ustr ''0''), [1]), (StrKey (ustr ''2''), [0])]\<rparr>),
       (ustr ''sat'', \<lparr>df = 2, postings = [(StrKey (ustr ''0''), [2]), (StrKey (ustr ''1''), [2])]\<rparr>),
       (ustr ''dog'', \<lparr>df = 2, postings = [(StrKey (ustr ''1''), [1]), (StrKey (ustr ''2''), [2])]\<rparr>),
       (ustr ''and'', \<lparr>df = 1, postings = [(StrKey (ustr ''2''), [1])]\<rparr>)],
    num_docs = 3\<rparr>"

section \<open>Running the functions\<close>

text \<open>Equations that let the simplifier run the functions on a concrete input.\<close>

lemma split_Nil: "split [] = []"
  by (simp add: split.simps)

lemma split_Cons:
  "split (c # cs) =
     (if isspace c then split cs
      else (c # takeWhile (\<lambda>c. \<not> isspace c) cs) # split (dropWhile (\<lambda>c. \<not> isspace c) cs))"
  by (subst split.simps, subst (2) split.simps) (simp add: Let_def)

lemmas eval_str = ustr_def isspace_def strip_def split_Nil split_Cons sub_punct_def

lemmas eval_tok = tokenize_def tokenize_kw_def unicode_sample_def ascii_lower_def ascii_digit_def
  ascii_word_def arabic_indic_digit_def Let_def

lemma py_enumerate_eq: "py_enumerate xs = map (\<lambda>(i, x). (int i, x)) (List.enumerate 0 xs)"
  by (simp add: py_enumerate_def enumerate_eq_zip zip_map1)

lemma basic_latin_sample: "basic_latin unicode_sample"
  by (auto simp: basic_latin_def unicode_sample_def arabic_indic_digit_def)

lemma scenario_tokens:
  assumes "basic_latin U"
  shows
  "tokenize_kw U [116, 104, 101, 32, 99, 97, 116, 32, 115, 97, 116] (scenario_kw lc rd lng) =
     [[116, 104, 101], [99, 97, 116], [115, 97, 116]]"
  "tokenize_kw U [116, 104, 101, 32, 100, 111, 103, 32, 115, 97, 116] (scenario_kw lc rd lng) =
     [[116, 104, 101], [100, 111, 103], [115, 97, 116]]"
  "tokenize_kw U [99, 97, 116, 32, 97, 110, 100, 32, 100, 111, 103] (scenario_kw lc rd lng) =
     [[99, 97, 116], [97, 110, 100], [100, 111, 103]]"
proof -
  have d: "\<And>c. c < 128 \<Longrightarrow> is_digit U c = ascii_digit c"
    and w: "\<And>c. c < 128 \<Longrightarrow> is_word U c = ascii_word c"
    using assms by (simp_all add: basic_latin_def)
  have l: "to_lower U [116, 104, 101, 32, 99, 97, 116, 32, 115, 97, 116] =
             [116, 104, 101, 32, 99, 97, 116, 32, 115, 97, 116]"
    "to_lower U [116, 104, 101, 32, 100, 111, 103, 32, 115, 97, 116] =
             [116, 104, 101, 32, 100, 111, 103, 32, 115, 97, 116]"
    "to_lower U [99, 97, 116, 32, 97, 110, 100, 32, 100, 111, 103] =
             [99, 97, 116, 32, 97, 110, 100, 32, 100, 111, 103]"
    using assms by (simp_all add: basic_latin_def ascii_lower_def)
  note ev = eval_str tokenize_def tokenize_kw_def ascii_digit_def ascii_word_def Let_def
    scenario_kw_def d w l
  show "tokenize_kw U [116, 104, 101, 32, 99, 97, 116, 32, 115, 97, 116] (scenario_kw lc rd lng) =
     [[116, 104, 101], [99, 97, 116], [115, 97, 116]]"
    by (cases lc; cases rd; simp add: ev)
  show "tokenize_kw U [116, 104, 101, 32, 100, 111, 103, 32, 115, 97, 116] (scenario_kw lc rd lng) =
     [[116, 104, 101], [100, 111, 103], [115, 97, 116]]"
    by (cases lc; cases rd; simp add: ev)
  show "tokenize_kw U [99, 97, 116, 32, 97, 110, 100, 32, 100, 111, 103] (scenario_kw lc rd lng) =
     [[99, 97, 116], [97, 110, 100], [100, 111, 103]]"
    by (cases lc; cases rd; simp add: ev)
qed

lemma build_scenario:
  assumes "basic_latin U"
  shows "build_inverted_index U scenario_corpus (scenario_kw lc rd lng) =
   \<lparr>index =
      [(ustr ''the'', \<lparr>df = 2, postings = [(IntKey 0, [0]), (IntKey 1, [0])]\<rparr>),
       (ustr ''cat'', \<lparr>df = 2, postings = [(IntKey 0, [1]), (IntKey 2, [0])]\<rparr>),
       (ustr ''sat'', \<lparr>df = 2, postings = [(IntKey 0, [2]), (IntKey 1, [2])]\<rparr>),
       (ustr ''dog'', \<lparr>df = 2, postings = [(IntKey 1, [1]), (IntKey 2, [2])]\<rparr>),
       (ustr ''and'', \<lparr>df = 1, postings = [(IntKey 2, [1])]\<rparr>)],
    num_docs = 3\<rparr>"
  unfolding build_inverted_index_def index_doc_def scenario_corpus_def
  by (simp add: py_enumerate_eq scenario_tokens [OF assms] add_posting_def set_df_def Let_def ustr_def)

lemmas scenario_index_eq =
  build_scenario [OF basic_latin_sample, of True False "ustr ''id''", folded scenario_index_def]

section \<open>Splitting and joining\<close>

lemma split_dropWhile: "split (dropWhile isspace s) = split s"
proof -
  have "split (dropWhile isspace s) =
      (let s' = dropWhile isspace s
       in if s' = [] then []
          else takeWhile (\<lambda>c. \<not> isspace c) s' # split (dropWhile (\<lambda>c. \<not> isspace c) s'))"
    by (subst split.simps) (simp only: dropWhile_idem)
  also have "\<dots> = split s"
    by (rule split.simps [symmetric])
  finally show ?thesis .
qed

lemma split_snoc_space:
  assumes "isspace c"
  shows "split (s @ [c]) = split s"
proof (induction s rule: length_induct)
  case (1 s)
  show ?case
  proof (cases s)
    case Nil
    then show ?thesis
      using assms by (simp add: split_Cons split_Nil)
  next
    case (Cons x xs)
    show ?thesis
    proof (cases "isspace x")
      case True
      have "split (xs @ [c]) = split xs"
        using 1 Cons by simp
      then show ?thesis
        using True by (simp add: Cons split_Cons)
    next
      case False
      let ?d = "dropWhile (\<lambda>c. \<not> isspace c) xs"
      have "length ?d \<le> length xs"
        by (rule length_dropWhile_le)
      then have len: "length ?d < length s"
        by (simp add: Cons)
      have ih: "split (?d @ [c]) = split ?d"
        using 1 len by blast
      have tw: "takeWhile (\<lambda>c. \<not> isspace c) (xs @ [c]) = takeWhile (\<lambda>c. \<not> isspace c) xs"
        using assms by (simp add: takeWhile_tail)
      have dw: "split (dropWhile (\<lambda>c. \<not> isspace c) (xs @ [c])) = split ?d"
      proof (cases "\<forall>y \<in> set xs. \<not> isspace y")
        case True
        then have "dropWhile (\<lambda>c. \<not> isspace c) (xs @ [c]) = [c]"
          using assms by (simp add: dropWhile_append2)
        moreover have "?d = []"
          using True by simp
        moreover have "split [c] = []"
          using assms by (simp add: split_Cons split_Nil)
        ultimately show ?thesis
          by (simp only: split_Nil)
      next
        case False
        then obtain y where "y \<in> set xs" "isspace y"
          by auto
        then have "dropWhile (\<lambda>c. \<not> isspace c) (xs @ [c]) = ?d @ [c]"
          by (simp add: dropWhile_append1)
        then show ?thesis
          using ih by (simp only:)
      qed
      have "split ((x # xs) @ [c]) =
          (x # takeWhile (\<lambda>c. \<not> isspace c) (xs @ [c])) # split (dropWhile (\<lambda>c. \<not> isspace c) (xs @ [c]))"
        using False by (simp add: split_Cons)
      also have "\<dots> = (x # takeWhile (\<lambda>c. \<not> isspace c) xs) # split ?d"
        by (simp only: tw dw)
      also have "\<dots> = split (x # xs)"
        using False by (simp add: split_Cons)
      finally show ?thesis
        by (simp only: Cons)
    qed
  qed
qed

lemma split_append_spaces:
  "\<forall>c \<in> set t. isspace c \<Longrightarrow> split (s @ t) = split s"
proof (induction t rule: rev_induct)
  case Nil
  then show ?case by simp
next
  case (snoc c t)
  have "split ((s @ t) @ [c]) = split (s @ t)"
    using snoc.prems by (intro split_snoc_space) simp
  with snoc show ?case by simp
qed

lemma rev_dropWhile_rev:
  "rev (dropWhile P (rev s)) @ rev (takeWhile P (rev s)) = s"
proof -
  have "rev (takeWhile P (rev s) @ dropWhile P (rev s)) = s"
    by (simp only: takeWhile_dropWhile_id rev_rev_ident)
  then show ?thesis by (simp only: rev_append)
qed

lemma split_strip: "split (strip s) = split s"
proof -
  let ?t = "rev (takeWhile isspace (rev (dropWhile isspace s)))"
  have e: "strip s @ ?t = dropWhile isspace s"
    unfolding strip_def by (rule rev_dropWhile_rev)
  have sp: "\<forall>c \<in> set ?t. isspace c"
    by (auto dest: set_takeWhileD)
  have "split (strip s) = split (strip s @ ?t)"
    using sp by (rule split_append_spaces [symmetric])
  also have "\<dots> = split (dropWhile isspace s)"
    by (simp only: e)
  also have "\<dots> = split s"
    by (rule split_dropWhile)
  finally show ?thesis .
qed

lemma split_token_space:
  assumes "is_token w" "isspace c"
  shows "split (w @ c # rest) = w # split rest"
proof -
  from assms obtain x xs where w: "w = x # xs" and nx: "\<not> isspace x" and nxs: "\<forall>c \<in> set xs. \<not> isspace c"
    by (cases w) (auto simp: is_token_def)
  have tw: "takeWhile (\<lambda>c. \<not> isspace c) (xs @ c # rest) = xs"
    using nxs assms(2) by (simp add: takeWhile_append2)
  have dw: "dropWhile (\<lambda>c. \<not> isspace c) (xs @ c # rest) = c # rest"
    using nxs assms(2) by (simp add: dropWhile_append2)
  have "split (c # rest) = split rest"
    using assms(2) by (subst split.simps, subst (2) split.simps) simp
  then show ?thesis
    using nx tw dw by (subst split.simps) (simp add: w Let_def)
qed

lemma split_token:
  assumes "is_token w"
  shows "split w = [w]"
proof -
  have "split (w @ [32]) = w # split []"
    using assms by (intro split_token_space) (simp_all add: isspace_def)
  moreover have "split (w @ [32]) = split w"
    by (intro split_snoc_space) (simp add: isspace_def)
  moreover have "split [] = []" by (subst split.simps) simp
  ultimately show ?thesis by simp
qed

section \<open>The stopword language\<close>

text \<open>
  C10. With stopword filtering enabled, every language other than "id" (so "en", and
  any other string) filters with the English stopword set: the tokens are those of the
  same call without filtering, less the English stopwords. \<open>tokenize\<close> has no branch
  that raises, whatever the language.
\<close>

theorem tokenize_lang_not_id_uses_english:
  assumes "lng \<noteq> ustr ''id''"
  shows "tokenize U text lc rd rp lng True =
         filter (\<lambda>t. t \<notin> STOPWORDS_EN) (tokenize U text lc rd rp lng False)"
  using assms by (simp add: tokenize_def Let_def)

theorem tokenize_lang_not_id_uses_english_witness:
  "ustr ''xx'' \<noteq> ustr ''id'' \<and>
   tokenize unicode_sample (ustr ''the cat sat'') True False True (ustr ''xx'') True =
     filter (\<lambda>t. t \<notin> STOPWORDS_EN)
       (tokenize unicode_sample (ustr ''the cat sat'') True False True (ustr ''xx'') False) \<and>
   tokenize unicode_sample (ustr ''the cat sat'') True False True (ustr ''xx'') True =
     [ustr ''cat'', ustr ''sat'']"
proof -
  have ne: "ustr ''xx'' \<noteq> ustr ''id''"
    by (simp add: ustr_def)
  have run: "tokenize unicode_sample (ustr ''the cat sat'') True False True (ustr ''xx'') True =
      [ustr ''cat'', ustr ''sat'']"
    by (simp add: eval_str eval_tok STOPWORDS_EN_def)
  from tokenize_lang_not_id_uses_english [OF ne] ne run show ?thesis
    by blast
qed

section \<open>Scenario A\<close>

text \<open>
  C3 as the specification states it: built from the three documents with punctuation
  removal on and stopword filtering off, the index has "cat" with df 2 and postings
  {0: [0], 2: [0]} and "sat" with df 2 and postings {0: [1], 1: [1]}. It fails: with the
  stopwords kept, "the" holds position 0 of the first two documents.
\<close>

theorem scenario_A_counterexample:
  "\<not> (map_of (index (build_inverted_index unicode_sample scenario_corpus
                        (scenario_kw True False (ustr ''id'')))) (ustr ''cat'') =
          Some \<lparr>df = 2, postings = [(IntKey 0, [0]), (IntKey 2, [0])]\<rparr> \<and>
        map_of (index (build_inverted_index unicode_sample scenario_corpus
                        (scenario_kw True False (ustr ''id'')))) (ustr ''sat'') =
          Some \<lparr>df = 2, postings = [(IntKey 0, [1]), (IntKey 1, [1])]\<rparr>)"
  by (simp add: build_scenario [OF basic_latin_sample] ustr_def)

text \<open>
  C3, amended. Built from the three documents with punctuation removal on and stopword
  filtering off (whatever the other options, and for every database that treats Basic
  Latin as Python does), the index has "cat" with df 2 and postings {0: [1], 2: [0]} and
  "sat" with df 2 and postings {0: [2], 1: [2]}.
\<close>

theorem scenario_A_positions:
  assumes "basic_latin U"
  shows "map_of (index (build_inverted_index U scenario_corpus (scenario_kw lc rd lng)))
     (ustr ''cat'') = Some \<lparr>df = 2, postings = [(IntKey 0, [1]), (IntKey 2, [0])]\<rparr> \<and>
   map_of (index (build_inverted_index U scenario_corpus (scenario_kw lc rd lng)))
     (ustr ''sat'') = Some \<lparr>df = 2, postings = [(IntKey 0, [2]), (IntKey 1, [2])]\<rparr>"
  by (simp add: build_scenario [OF assms] ustr_def)

theorem scenario_A_positions_witness:
  "basic_latin unicode_sample \<and>
   map_of (index (build_inverted_index unicode_sample scenario_corpus
                    (scenario_kw True False (ustr ''id'')))) (ustr ''cat'') =
     Some \<lparr>df = 2, postings = [(IntKey 0, [1]), (IntKey 2, [0])]\<rparr> \<and>
   map_of (index (build_inverted_index unicode_sample scenario_corpus
                    (scenario_kw True False (ustr ''id'')))) (ustr ''sat'') =
     Some \<lparr>df = 2, postings = [(IntKey 0, [2]), (IntKey 1, [2])]\<rparr>"
  using scenario_A_positions [OF basic_latin_sample, of True False "ustr ''id''"] basic_latin_sample
  by blast

text \<open>
  The positions that the specification lists for scenario A are those of the index
  built with the English stopwords filtered: "the" and "and" are then gone.
\<close>

lemma scenario_A_english_stopwords:
  "build_inverted_index unicode_sample scenario_corpus
     \<lparr>lowercase = True, remove_digits = False, remove_punct = True, lang = ustr ''en'',
      use_stop = True\<rparr> =
   \<lparr>index =
      [(ustr ''cat'', \<lparr>df = 2, postings = [(IntKey 0, [0]), (IntKey 2, [0])]\<rparr>),
       (ustr ''sat'', \<lparr>df = 2, postings = [(IntKey 0, [1]), (IntKey 1, [1])]\<rparr>),
       (ustr ''dog'', \<lparr>df = 2, postings = [(IntKey 1, [0]), (IntKey 2, [1])]\<rparr>)],
    num_docs = 3\<rparr>"
proof -
  have t: "tokenize unicode_sample [116, 104, 101, 32, 99, 97, 116, 32, 115, 97, 116]
             True False True [101, 110] True = [[99, 97, 116], [115, 97, 116]]"
    "tokenize unicode_sample [116, 104, 101, 32, 100, 111, 103, 32, 115, 97, 116]
             True False True [101, 110] True = [[100, 111, 103], [115, 97, 116]]"
    "tokenize unicode_sample [99, 97, 116, 32, 97, 110, 100, 32, 100, 111, 103]
             True False True [101, 110] True = [[99, 97, 116], [100, 111, 103]]"
    by (simp_all add: eval_str eval_tok STOPWORDS_EN_def)
  show ?thesis
    unfolding build_inverted_index_def index_doc_def scenario_corpus_def
    by (simp add: py_enumerate_eq tokenize_kw_def t add_posting_def set_df_def Let_def ustr_def)
qed

section \<open>Evaluation of Boolean queries\<close>

lemma reduce_ops_Nil:
  "reduce_ops idx p \<lparr>out_stack = out, op_stack = []\<rparr> = Inr \<lparr>out_stack = out, op_stack = []\<rparr>"
  by (subst reduce_ops.simps) simp

lemma reduce_ops_Cons:
  "reduce_ops idx p \<lparr>out_stack = out, op_stack = op # ops\<rparr> =
     (if p \<le> prec op
      then (case apply_op idx \<lparr>out_stack = out, op_stack = op # ops\<rparr> of
              Inl e \<Rightarrow> Inl e
            | Inr st' \<Rightarrow> reduce_ops idx p st')
      else Inr \<lparr>out_stack = out, op_stack = op # ops\<rparr>)"
  by (subst reduce_ops.simps) simp

lemma is_token_ops:
  "is_token (ustr ''AND'')" "is_token (ustr ''OR'')" "is_token (ustr ''NOT'')"
  by (simp_all add: is_token_def ustr_def isspace_def)

lemmas eval_bool = reduce_ops_Nil reduce_ops_Cons step_def prec_def is_operator_def ustr_def

lemma isspace_32: "isspace 32"
  by (simp add: isspace_def)

lemma not_operator:
  assumes "\<not> is_operator a"
  shows "a \<noteq> [65, 78, 68]" "a \<noteq> [79, 82]" "a \<noteq> [78, 79, 84]"
  using assms by (auto simp: is_operator_def ustr_def)

lemma run_terms:
  "\<forall>t \<in> set toks. \<not> is_operator t \<Longrightarrow>
   run_tokens idx toks st = Inr (st\<lparr>out_stack := rev (map (term_docs idx) toks) @ out_stack st\<rparr>)"
  by (induction toks arbitrary: st) (simp_all add: step_def)



lemma is_term_scenario:
  "is_term (ustr ''cat'')" "is_term (ustr ''dog'')" "is_term (ustr ''sat'')"
  by (simp_all add: is_term_def is_token_def is_operator_def ustr_def isspace_def)

lemma universe_scenario: "universe scenario_index = {IntKey 0, IntKey 1, IntKey 2}"
proof -
  have "{0..<3::int} = {0, 1, 2}" by auto
  then show ?thesis by (simp add: universe_def scenario_index_eq)
qed

lemma term_docs_scenario:
  "term_docs scenario_index (ustr ''cat'') = {IntKey 0, IntKey 2}"
  "term_docs scenario_index (ustr ''dog'') = {IntKey 1, IntKey 2}"
  "term_docs scenario_index (ustr ''sat'') = {IntKey 0, IntKey 1}"
  by (simp_all add: term_docs_def scenario_index_eq ustr_def)



lemma query_tokens:
  assumes "is_token x" "is_token y"
  shows "split (strip (x @ ustr '' AND '' @ y)) = [x, ustr ''AND'', y]"
    "split (strip (x @ ustr '' OR '' @ y)) = [x, ustr ''OR'', y]"
    "split (strip (ustr ''NOT '' @ x)) = [ustr ''NOT'', x]"
    "split (strip x) = [x]"
proof -
  have "x @ ustr '' AND '' @ y = x @ 32 # (ustr ''AND'' @ 32 # y)"
    "x @ ustr '' OR '' @ y = x @ 32 # (ustr ''OR'' @ 32 # y)"
    "ustr ''NOT '' @ x = ustr ''NOT'' @ 32 # x"
    by (simp_all add: ustr_def)
  then show "split (strip (x @ ustr '' AND '' @ y)) = [x, ustr ''AND'', y]"
    "split (strip (x @ ustr '' OR '' @ y)) = [x, ustr ''OR'', y]"
    "split (strip (ustr ''NOT '' @ x)) = [ustr ''NOT'', x]"
    "split (strip x) = [x]"
    by (simp_all only: split_strip split_token_space [OF _ isspace_32] split_token assms is_token_ops)
qed



text \<open>
  C9. For every index and every query of two or more tokens none of which is an
  operator, the result is the document set of the last token: the sets of the earlier
  ones stay on the operand stack and are dropped.
\<close>

theorem adjacent_terms_keep_last:
  assumes "tokens = split (strip query)" "2 \<le> length tokens" "\<forall>t \<in> set tokens. \<not> is_operator t"
  shows "boolean_search query idx = Inr (term_docs idx (last tokens))"
proof -
  from assms(2) have ne: "tokens \<noteq> []" by auto
  have run: "run_tokens idx tokens \<lparr>out_stack = [], op_stack = []\<rparr> =
      Inr \<lparr>out_stack = rev (map (term_docs idx) tokens), op_stack = []\<rparr>"
    using run_terms [OF assms(3)] by simp
  have "hd (rev (map (term_docs idx) tokens)) = term_docs idx (last tokens)"
    using ne by (simp add: hd_rev last_map)
  then show ?thesis
    using ne run by (simp add: boolean_search_def assms(1) [symmetric] reduce_ops_Nil)
qed

theorem adjacent_terms_keep_last_witness:
  "[ustr ''cat'', ustr ''dog''] = split (strip (ustr ''cat dog'')) \<and>
   2 \<le> length [ustr ''cat'', ustr ''dog''] \<and>
   \<not> is_operator (ustr ''cat'') \<and> \<not> is_operator (ustr ''dog'') \<and>
   boolean_search (ustr ''cat dog'') scenario_index = Inr {IntKey 1, IntKey 2}"
proof -
  have t: "[ustr ''cat'', ustr ''dog''] = split (strip (ustr ''cat dog''))"
    by (simp add: eval_str)
  have l: "2 \<le> length [ustr ''cat'', ustr ''dog'']" by simp
  have o: "\<not> is_operator (ustr ''cat'')" "\<not> is_operator (ustr ''dog'')"
    by (simp_all add: is_operator_def ustr_def)
  then have o': "\<forall>t \<in> set [ustr ''cat'', ustr ''dog'']. \<not> is_operator t"
    by simp
  have "boolean_search (ustr ''cat dog'') scenario_index =
      Inr (term_docs scenario_index (last [ustr ''cat'', ustr ''dog'']))"
    by (rule adjacent_terms_keep_last [OF t l o'])
  then have "boolean_search (ustr ''cat dog'') scenario_index = Inr {IntKey 1, IntKey 2}"
    by (simp add: term_docs_scenario)
  with t l o show ?thesis
    by blast
qed

text \<open>
  C1 says that a query with a missing operand returns the empty set and raises nothing.
  The code does otherwise: \<open>apply_op\<close> pops an empty operand stack and raises
  \<open>IndexError\<close> on the queries "AND" and "cat AND", for every index; and a trailing NOT
  raises nothing but returns the complement of the operand before it, which is not
  empty in general.
\<close>

theorem missing_operand_raises:
  "boolean_search (ustr ''AND'') idx = Inl IndexError \<and>
   boolean_search (ustr ''cat AND'') idx = Inl IndexError \<and>
   boolean_search (ustr ''cat NOT'') idx = Inr (universe idx - term_docs idx (ustr ''cat''))"
  by (simp add: boolean_search_def eval_str eval_bool)

lemma empty_query: "split (strip query) = [] \<Longrightarrow> boolean_search query idx = Inr {}"
  by (simp add: boolean_search_def)

section \<open>Phrases and conjunctions\<close>

lemma is_token_scenario:
  "is_token (ustr ''cat'')" "is_token (ustr ''dog'')" "is_token (ustr ''sat'')"
  using is_term_scenario by (simp_all add: is_term_def)

lemma split_join_space_Cons:
  "\<forall>w \<in> set (w # ws). is_token w \<Longrightarrow> split (join (ustr '' '') (w # ws)) = w # ws"
proof (induction ws arbitrary: w)
  case Nil
  then show ?case by (simp add: split_token)
next
  case (Cons v ws)
  have "join (ustr '' '') (w # v # ws) = w @ 32 # join (ustr '' '') (v # ws)"
    by (simp add: ustr_def)
  moreover have "is_token w" using Cons.prems by simp
  moreover have "split (join (ustr '' '') (v # ws)) = v # ws"
    using Cons.prems by (intro Cons.IH) simp
  ultimately show ?case
    by (simp only: split_token_space [OF _ isspace_32])
qed

lemma split_join_space:
  "\<forall>w \<in> set ws. is_token w \<Longrightarrow> split (join (ustr '' '') ws) = ws"
  by (cases ws) (simp_all add: split_Nil split_join_space_Cons del: join.simps(2,3))

lemma split_join_and:
  "\<forall>w \<in> set (w # ws). is_token w \<Longrightarrow>
   split (join (ustr '' AND '') (w # ws)) = w # and_chain ws"
proof (induction ws arbitrary: w)
  case Nil
  then show ?case by (simp add: split_token and_chain_def)
next
  case (Cons v ws)
  have "join (ustr '' AND '') (w # v # ws) =
        w @ 32 # (ustr ''AND'' @ 32 # join (ustr '' AND '') (v # ws))"
    by (simp add: ustr_def)
  moreover have "is_token w" using Cons.prems by simp
  moreover have "split (join (ustr '' AND '') (v # ws)) = v # and_chain ws"
    using Cons.prems by (intro Cons.IH) simp
  ultimately show ?case
    by (simp only: split_token_space [OF _ isspace_32] is_token_ops) (simp add: and_chain_def)
qed

lemma run_and_chain:
  assumes "\<forall>v \<in> set ws. \<not> is_operator v"
  shows "(case run_tokens idx (and_chain ws) \<lparr>out_stack = [B, A], op_stack = [ustr ''AND'']\<rparr> of
            Inl e \<Rightarrow> Inl e | Inr st \<Rightarrow> reduce_ops idx 0 st) =
         Inr \<lparr>out_stack = [A \<inter> B \<inter> (\<Inter>v \<in> set ws. term_docs idx v)], op_stack = []\<rparr>"
  using assms
proof (induction ws arbitrary: A B)
  case Nil
  show ?case by (simp add: and_chain_def eval_bool)
next
  case (Cons v ws)
  have nv: "v \<noteq> [65, 78, 68]" "v \<noteq> [79, 82]" "v \<noteq> [78, 79, 84]"
    using Cons.prems by (simp_all add: not_operator)
  have "run_tokens idx (and_chain (v # ws)) \<lparr>out_stack = [B, A], op_stack = [ustr ''AND'']\<rparr> =
        run_tokens idx (and_chain ws) \<lparr>out_stack = [term_docs idx v, A \<inter> B], op_stack = [ustr ''AND'']\<rparr>"
    using nv by (simp add: and_chain_def eval_bool)
  moreover have "A \<inter> B \<inter> term_docs idx v \<inter> (\<Inter>v \<in> set ws. term_docs idx v) =
      A \<inter> B \<inter> (\<Inter>v \<in> set (v # ws). term_docs idx v)"
    by auto
  ultimately show ?case
    using Cons.IH [of "term_docs idx v" "A \<inter> B"] Cons.prems by simp
qed

lemma boolean_search_conjunction:
  assumes "words \<noteq> []" "\<forall>w \<in> set words. is_term w"
  shows "boolean_search (join (ustr '' AND '') words) idx = Inr (\<Inter>w \<in> set words. term_docs idx w)"
proof -
  from assms(1) obtain w ws where words: "words = w # ws" by (cases words) auto
  have tok: "\<forall>w \<in> set (w # ws). is_token w" and nop: "\<forall>v \<in> set ws. \<not> is_operator v"
    and nw: "\<not> is_operator w"
    using assms(2) by (simp_all add: words is_term_def)
  have toks: "split (strip (join (ustr '' AND '') words)) = w # and_chain ws"
    unfolding words split_strip by (rule split_join_and [OF tok])
  have s1: "step idx w \<lparr>out_stack = [], op_stack = []\<rparr> = Inr \<lparr>out_stack = [term_docs idx w], op_stack = []\<rparr>"
    using nw by (simp add: step_def)
  show ?thesis
  proof (cases ws)
    case Nil
    then show ?thesis
      unfolding boolean_search_def toks
      by (simp add: s1 Let_def and_chain_def reduce_ops_Nil words)
  next
    case (Cons v vs)
    have nv: "v \<noteq> [65, 78, 68]" "v \<noteq> [79, 82]" "v \<noteq> [78, 79, 84]"
      using nop Cons by (simp_all add: not_operator)
    have nvs: "\<forall>v \<in> set vs. \<not> is_operator v"
      using nop Cons by simp
    have "run_tokens idx (w # and_chain ws) \<lparr>out_stack = [], op_stack = []\<rparr> =
        run_tokens idx (and_chain vs) \<lparr>out_stack = [term_docs idx v, term_docs idx w], op_stack = [ustr ''AND'']\<rparr>"
      using nv nw by (simp add: Cons and_chain_def eval_bool)
    moreover have "term_docs idx w \<inter> term_docs idx v \<inter> (\<Inter>v \<in> set vs. term_docs idx v) =
        (\<Inter>w \<in> set words. term_docs idx w)"
      by (auto simp: words Cons)
    ultimately show ?thesis
      unfolding boolean_search_def toks
      using run_and_chain [OF nvs, of idx "term_docs idx v" "term_docs idx w"]
      by (auto simp: Let_def split: sum.splits)
  qed
qed


lemma narrow_subset:
  "narrow idx ws c = Some c' \<Longrightarrow> c' \<subseteq> c \<and> (\<forall>w \<in> set ws. c' \<subseteq> term_docs idx w)"
proof (induction ws arbitrary: c)
  case Nil
  then show ?case by simp
next
  case (Cons w ws)
  then obtain e where e: "map_of (index idx) w = Some e"
    by (auto split: option.splits)
  let ?c = "c \<inter> set (map fst (postings e))"
  from Cons.prems e have n: "narrow idx ws ?c = Some c'"
    by (simp add: Let_def split: if_splits)
  from Cons.IH [OF n] have "c' \<subseteq> ?c" "\<forall>w \<in> set ws. c' \<subseteq> term_docs idx w"
    by simp_all
  moreover have "term_docs idx w = set (map fst (postings e))"
    by (simp add: term_docs_def e)
  ultimately show ?case by auto
qed

lemma positions_of_present:
  assumes "d \<in> term_docs idx w"
  shows "\<exists>l. positions_of idx d w = Inr l"
proof -
  from assms obtain e where e: "map_of (index idx) w = Some e" "d \<in> fst ` set (postings e)"
    by (auto simp: term_docs_def split: option.splits)
  then obtain l where "map_of (postings e) d = Some l"
    by (metis map_of_eq_None_iff not_None_eq)
  with e show ?thesis by (simp add: positions_of_def)
qed

lemma positions_lists_present:
  "\<forall>w \<in> set ws. d \<in> term_docs idx w \<Longrightarrow> \<exists>ls. positions_lists idx d ws = Inr ls"
proof (induction ws)
  case Nil
  then show ?case by simp
next
  case (Cons w ws)
  then obtain l ls where "positions_of idx d w = Inr l" "positions_lists idx d ws = Inr ls"
    using positions_of_present [of d idx w] by auto
  then show ?case by simp
qed

lemma doc_matches_present:
  "\<forall>w \<in> set ws. d \<in> term_docs idx w \<Longrightarrow> \<exists>m. doc_matches idx ws d = Inr m"
  using positions_lists_present [of ws d idx] by (auto simp: doc_matches_def)

lemma phrase_search_words:
  assumes "split phrase = words"
  shows "\<exists>P. phrase_search phrase idx = Inr P \<and> (words \<noteq> [] \<longrightarrow> P \<subseteq> (\<Inter>w \<in> set words. term_docs idx w))"
proof (cases "words = []")
  case True
  then show ?thesis by (simp add: phrase_search_def assms)
next
  case False
  then obtain w ws where words: "words = w # ws" by (cases words) auto
  show ?thesis
  proof (cases "map_of (index idx) w")
    case None
    then show ?thesis by (simp add: phrase_search_def assms words)
  next
    case (Some first)
    have td: "term_docs idx w = set (map fst (postings first))"
      by (simp add: term_docs_def Some)
    show ?thesis
    proof (cases "narrow idx ws (set (map fst (postings first)))")
      case None
      then show ?thesis by (simp add: phrase_search_def assms words Some Let_def)
    next
      case c: (Some c)
      from narrow_subset [OF c] td have sub: "\<forall>v \<in> set words. c \<subseteq> term_docs idx v"
        by (simp add: words)
      have ok: "\<forall>d \<in> c. doc_matches idx words d \<noteq> Inl KeyError"
      proof
        fix d assume "d \<in> c"
        with sub have "\<forall>v \<in> set words. d \<in> term_docs idx v" by blast
        from doc_matches_present [OF this] show "doc_matches idx words d \<noteq> Inl KeyError"
          by auto
      qed
      with c have "phrase_search phrase idx = Inr {d \<in> c. doc_matches idx words d = Inr True}"
        by (simp add: phrase_search_def assms words Some Let_def)
      moreover have "{d \<in> c. doc_matches idx words d = Inr True} \<subseteq> (\<Inter>w \<in> set words. term_docs idx w)"
        using sub by auto
      ultimately show ?thesis by simp
    qed
  qed
qed

lemmas eval_phrase = phrase_search_def doc_matches_def positions_of_def shifted_sets_def
  intersection_def Let_def

lemma operator_word_index_eq:
  "operator_word_index =
   \<lparr>index =
      [(ustr ''NOT'', \<lparr>df = 1, postings = [(IntKey 0, [0])]\<rparr>),
       (ustr ''cat'', \<lparr>df = 1, postings = [(IntKey 0, [1])]\<rparr>)],
    num_docs = 1\<rparr>"
proof -
  have t: "tokenize_kw unicode_sample [78, 79, 84, 32, 99, 97, 116] (scenario_kw False False [105, 100]) =
      [[78, 79, 84], [99, 97, 116]]"
    by (simp add: eval_str eval_tok scenario_kw_def)
  show ?thesis
    unfolding operator_word_index_def build_inverted_index_def index_doc_def
    by (simp add: py_enumerate_eq t add_posting_def set_df_def Let_def ustr_def)
qed

text \<open>
  C7 as the specification states it: for every non-empty sequence of words, the phrase
  search returns a subset of what the Boolean search for "w1 AND ... AND wn" returns. It
  fails when a word is an operator: on the index of the document "NOT cat" the phrase
  "NOT cat" matches document 0, while the query "NOT AND cat" has no set to return, for
  the evaluator takes NOT for the operator and raises \<open>IndexError\<close>.
\<close>

theorem phrase_of_operator_word_counterexample:
  "phrase_search (join (ustr '' '') [ustr ''NOT'', ustr ''cat'']) operator_word_index =
     Inr {IntKey 0} \<and>
   boolean_search (join (ustr '' AND '') [ustr ''NOT'', ustr ''cat'']) operator_word_index =
     Inl IndexError \<and>
   \<not> (\<exists>P B. phrase_search (join (ustr '' '') [ustr ''NOT'', ustr ''cat'']) operator_word_index = Inr P \<and>
            boolean_search (join (ustr '' AND '') [ustr ''NOT'', ustr ''cat'']) operator_word_index = Inr B \<and>
            P \<subseteq> B)"
proof -
  have sp: "split (join (ustr '' '') [ustr ''NOT'', ustr ''cat'']) = [ustr ''NOT'', ustr ''cat'']"
    by (simp add: eval_str)
  have u: "[1..<2] = [1]" by (simp add: upt_rec)
  have p: "phrase_search (join (ustr '' '') [ustr ''NOT'', ustr ''cat'']) operator_word_index =
     Inr {IntKey 0}"
    unfolding phrase_search_def sp
    by (auto simp add: eval_phrase operator_word_index_eq ustr_def u)
  have b: "boolean_search (join (ustr '' AND '') [ustr ''NOT'', ustr ''cat'']) operator_word_index =
     Inl IndexError"
    by (simp add: boolean_search_def eval_str eval_bool)
  from p b show ?thesis
    by simp
qed

text \<open>
  C7, amended. For every index (built or not) and every sequence of one or more words
  w1 ... wn none of which is an operator (AND, OR, NOT), the phrase search for
  "w1 ... wn" and the Boolean search for "w1 AND ... AND wn" both return a set, and the
  first is a subset of the second. The witness is a phrase of the scenario corpus whose
  two words share a document without being adjacent in it.
\<close>

theorem phrase_subset_of_conjunction:
  assumes "words \<noteq> []" "\<forall>w \<in> set words. is_term w"
  shows "\<exists>P B. phrase_search (join (ustr '' '') words) idx = Inr P \<and>
               boolean_search (join (ustr '' AND '') words) idx = Inr B \<and> P \<subseteq> B"
proof -
  have "\<forall>w \<in> set words. is_token w"
    using assms(2) by (simp add: is_term_def)
  then have "split (join (ustr '' '') words) = words"
    by (rule split_join_space)
  from phrase_search_words [OF this, of idx] assms(1)
  obtain P where "phrase_search (join (ustr '' '') words) idx = Inr P"
    "P \<subseteq> (\<Inter>w \<in> set words. term_docs idx w)"
    by blast
  with boolean_search_conjunction [OF assms, of idx] show ?thesis
    by blast
qed


lemma phrase_scenario:
  "phrase_search (ustr ''dog cat'') scenario_index = Inr {}"
  "phrase_search (ustr ''cat sat'') scenario_index = Inr {IntKey 0}"
proof -
  have sp: "split (ustr ''dog cat'') = [ustr ''dog'', ustr ''cat'']"
    "split (ustr ''cat sat'') = [ustr ''cat'', ustr ''sat'']"
    by (simp_all add: eval_str)
  have u: "[1..<2] = [1]" by (simp add: upt_rec)
  show "phrase_search (ustr ''dog cat'') scenario_index = Inr {}"
    unfolding phrase_search_def sp
    by (auto simp add: eval_phrase scenario_index_eq ustr_def u)
  show "phrase_search (ustr ''cat sat'') scenario_index = Inr {IntKey 0}"
    unfolding phrase_search_def sp
    by (auto simp add: eval_phrase scenario_index_eq ustr_def u)
qed

theorem phrase_subset_of_conjunction_witness:
  "[ustr ''dog'', ustr ''cat''] \<noteq> [] \<and> is_term (ustr ''dog'') \<and> is_term (ustr ''cat'') \<and>
   phrase_search (ustr ''dog cat'') scenario_index = Inr {} \<and>
   boolean_search (ustr ''dog AND cat'') scenario_index = Inr {IntKey 2} \<and>
   ({} :: key set) \<subseteq> {IntKey 2}"
proof -
  have ne: "[ustr ''dog'', ustr ''cat''] \<noteq> []" by simp
  have tm: "\<forall>w \<in> set [ustr ''dog'', ustr ''cat'']. is_term w"
    by (simp add: is_term_scenario)
  have j: "join (ustr '' '') [ustr ''dog'', ustr ''cat''] = ustr ''dog cat''"
    "join (ustr '' AND '') [ustr ''dog'', ustr ''cat''] = ustr ''dog AND cat''"
    by (simp_all add: ustr_def)
  have q: "ustr ''dog AND cat'' = ustr ''dog'' @ ustr '' AND '' @ ustr ''cat''"
    by (simp add: ustr_def)
  have b: "boolean_search (ustr ''dog AND cat'') scenario_index = Inr {IntKey 2}"
    unfolding q boolean_search_def query_tokens(1) [OF is_token_scenario(2) is_token_scenario(1)]
    by (auto simp add: eval_bool term_docs_def scenario_index_eq)
  from phrase_subset_of_conjunction [OF ne tm, of scenario_index]
  obtain P B where "phrase_search (ustr ''dog cat'') scenario_index = Inr P"
    "boolean_search (ustr ''dog AND cat'') scenario_index = Inr B" "P \<subseteq> B"
    unfolding j by blast
  with b phrase_scenario(1) have "({} :: key set) \<subseteq> {IntKey 2}"
    by simp
  with ne is_term_scenario b phrase_scenario(1) show ?thesis
    by blast
qed

section \<open>Invariants of the builder\<close>

lemma wf_vocab_add_posting:
  assumes "wf_vocab vocab"
  shows "wf_vocab (add_posting d pt vocab)"
proof -
  obtain e where e: "e = (case map_of vocab (snd pt) of None \<Rightarrow> \<lparr>df = 0, postings = []\<rparr> | Some e \<Rightarrow> e)"
    by simp
  obtain l where l: "l = (case map_of (postings e) d of None \<Rightarrow> [] | Some l \<Rightarrow> l)"
    by simp
  let ?e' = "e\<lparr>postings := AList.update d (l @ [fst pt]) (postings e)\<rparr>"
  have ap: "add_posting d pt vocab = AList.update (snd pt) ?e' vocab"
    by (simp add: add_posting_def Let_def e l)
  have de: "distinct (map fst (postings e))"
    using assms by (auto simp: e wf_vocab_def split: option.splits)
  have ne: "\<forall>k m. map_of (postings e) k = Some m \<longrightarrow> m \<noteq> []"
    using assms by (auto simp: e wf_vocab_def split: option.splits)
  have e'1: "distinct (map fst (postings ?e'))"
    using de by (simp add: distinct_update)
  have e'2: "postings ?e' \<noteq> []"
    by (cases "postings e") auto
  have e'3: "\<forall>k m. map_of (postings ?e') k = Some m \<longrightarrow> m \<noteq> []"
    using ne by (auto simp: update_conv')
  show ?thesis
    unfolding ap wf_vocab_def
    using assms e'1 e'2 e'3
    by (auto simp: wf_vocab_def distinct_update update_conv' simp del: AList.update.simps)
qed

lemma lookup_add_posting:
  "lookup_positions (add_posting d pt vocab) t k =
     lookup_positions vocab t k @ (if t = snd pt \<and> k = d then [fst pt] else [])"
  by (auto simp: lookup_positions_def add_posting_def Let_def update_conv' split: option.splits)

lemma wf_vocab_fold_add:
  "wf_vocab vocab \<Longrightarrow> wf_vocab (fold (add_posting d) pts vocab)"
  by (induction pts arbitrary: vocab) (simp_all add: wf_vocab_add_posting)

lemma lookup_fold_add:
  "lookup_positions (fold (add_posting d) pts vocab) t k =
     lookup_positions vocab t k @ (if k = d then positions_in t pts else [])"
  by (induction pts arbitrary: vocab) (auto simp: lookup_add_posting positions_in_def)


lemma wf_vocab_fold_docs:
  "wf_vocab vocab \<Longrightarrow> wf_vocab (fold (index_doc U kw) dts vocab)"
  by (induction dts arbitrary: vocab) (simp_all add: index_doc_def wf_vocab_fold_add)

lemma lookup_fold_docs:
  "lookup_positions (fold (index_doc U kw) dts vocab) t k =
     lookup_positions vocab t k @
     concat (map (\<lambda>dt. if k = IntKey (fst dt)
                         then positions_in t (py_enumerate (tokenize_kw U (snd dt) kw)) else []) dts)"
  by (induction dts arbitrary: vocab) (simp_all add: index_doc_def lookup_fold_add)

lemma py_enumerate_snoc: "py_enumerate (xs @ [x]) = py_enumerate xs @ [(int (length xs), x)]"
  by (simp add: py_enumerate_def)

lemma concat_enumerate:
  "concat (map (\<lambda>dt. if k = IntKey (fst dt) then f (snd dt) else []) (py_enumerate docs)) =
     (case k of
        IntKey i \<Rightarrow> if 0 \<le> i \<and> i < int (length docs) then f (docs ! nat i) else []
      | StrKey s \<Rightarrow> [])"
proof (induction docs rule: rev_induct)
  case Nil
  then show ?case by (auto simp: py_enumerate_def split: key.splits)
next
  case (snoc x xs)
  show ?case
  proof (cases k)
    case (IntKey i)
    then show ?thesis
      using snoc by (auto simp: py_enumerate_snoc nth_append)
  next
    case (StrKey s)
    then show ?thesis
      using snoc by (simp add: py_enumerate_snoc)
  qed
qed

lemma map_of_set_df:
  "map_of (map set_df vocab) t =
     map_option (\<lambda>e. e\<lparr>df := int (length (postings e))\<rparr>) (map_of vocab t)"
  by (induction vocab) (auto simp: set_df_def)

lemma lookup_set_df: "lookup_positions (map set_df vocab) t k = lookup_positions vocab t k"
  by (simp add: lookup_positions_def map_of_set_df split: option.splits)

lemma wf_vocab_set_df:
  assumes "wf_vocab vocab"
  shows "wf_vocab (map set_df vocab)"
proof -
  have "map fst (map set_df vocab) = map fst vocab"
    by (simp add: set_df_def)
  with assms have d: "distinct (map fst (map set_df vocab))"
    by (simp only: wf_vocab_def)
  have "\<forall>t e. map_of (map set_df vocab) t = Some e \<longrightarrow>
        distinct (map fst (postings e)) \<and> postings e \<noteq> [] \<and>
        (\<forall>d l. map_of (postings e) d = Some l \<longrightarrow> l \<noteq> [])"
  proof (intro allI impI)
    fix t e assume "map_of (map set_df vocab) t = Some e"
    then obtain e0 where e0: "map_of vocab t = Some e0" "postings e = postings e0"
      by (auto simp: map_of_set_df)
    with assms show "distinct (map fst (postings e)) \<and> postings e \<noteq> [] \<and>
        (\<forall>d l. map_of (postings e) d = Some l \<longrightarrow> l \<noteq> [])"
      unfolding wf_vocab_def by metis
  qed
  with d show ?thesis
    unfolding wf_vocab_def by blast
qed

lemma wf_vocab_build: "wf_vocab (index (build_inverted_index U docs kw))"
proof -
  have "wf_vocab []" by (simp add: wf_vocab_def)
  then show ?thesis
    by (simp add: build_inverted_index_def Let_def wf_vocab_set_df wf_vocab_fold_docs)
qed

lemma lookup_build:
  "lookup_positions (index (build_inverted_index U docs kw)) t k =
     (case k of
        IntKey i \<Rightarrow>
          if 0 \<le> i \<and> i < int (length docs)
          then positions_in t (py_enumerate (tokenize_kw U (docs ! nat i) kw)) else []
      | StrKey s \<Rightarrow> [])"
proof -
  have "lookup_positions [] t k = []" by (simp add: lookup_positions_def)
  then show ?thesis
    by (simp add: build_inverted_index_def Let_def lookup_set_df lookup_fold_docs
        concat_enumerate [where f = "\<lambda>text. positions_in t (py_enumerate (tokenize_kw U text kw))"])
qed

lemma df_build:
  assumes "(t, e) \<in> set (index (build_inverted_index U docs kw))"
  shows "df e = int (length (postings e))"
  using assms by (auto simp: build_inverted_index_def Let_def set_df_def)

lemma positions_in_nonempty: "positions_in t (py_enumerate toks) \<noteq> [] \<longleftrightarrow> t \<in> set toks"
proof -
  have "snd ` set (py_enumerate toks) = set toks"
    by (simp add: py_enumerate_def flip: set_map)
  then show ?thesis
    by (force simp: positions_in_def filter_empty_conv)
qed

lemma positions_in_sorted: "sorted_wrt (<) (positions_in t (py_enumerate toks))"
proof -
  have "sorted_wrt (<) (map int [0..<length toks])"
    by (simp add: sorted_wrt_map)
  then have "sorted_wrt (<) (map fst (py_enumerate toks))"
    by (simp add: py_enumerate_def)
  then have "sorted_wrt (\<lambda>a b. fst a < fst b) (py_enumerate toks)"
    by (simp add: sorted_wrt_map)
  then have "sorted_wrt (\<lambda>a b. fst a < fst b) (filter (\<lambda>pt. snd pt = t) (py_enumerate toks))"
    by (rule sorted_wrt_filter)
  then show ?thesis
    by (simp add: positions_in_def sorted_wrt_map)
qed


lemma lookup_stored:
  assumes "wf_vocab vocab" "(t, e) \<in> set vocab" "(d, l) \<in> set (postings e)"
  shows "lookup_positions vocab t d = l" "l \<noteq> []"
proof -
  from assms(1,2) have e: "map_of vocab t = Some e"
    by (simp add: wf_vocab_def)
  with assms(1) have "distinct (map fst (postings e))"
    unfolding wf_vocab_def by blast
  with assms(3) have l: "map_of (postings e) d = Some l"
    by simp
  from e l show "lookup_positions vocab t d = l"
    by (simp add: lookup_positions_def)
  from assms(1) e l show "l \<noteq> []"
    unfolding wf_vocab_def by blast
qed

lemma build_positions:
  assumes "(t, e) \<in> set (index (build_inverted_index U docs kw))" "(d, l) \<in> set (postings e)"
  shows "\<exists>i < length docs. d = IntKey (int i) \<and> l \<noteq> [] \<and>
           l = positions_in t (py_enumerate (tokenize_kw U (docs ! i) kw))"
proof -
  note st = lookup_stored [OF wf_vocab_build assms]
  from st lookup_build [of U docs kw t d]
  obtain i where i: "d = IntKey i" "0 \<le> i" "i < int (length docs)"
      "l = positions_in t (py_enumerate (tokenize_kw U (docs ! nat i) kw))"
    by (cases d) (auto split: if_splits)
  then have "nat i < length docs" "d = IntKey (int (nat i))"
    by simp_all
  with i st(2) show ?thesis by blast
qed

text \<open>
  C6. Every index that \<open>build_inverted_index\<close> returns satisfies: a term is a key if
  and only if it is a token of at least one document; for every term, the position list
  of every document in its postings is non-empty and strictly increasing; and the df of
  every term is the number of distinct documents in its postings.
\<close>

theorem build_invariants:
  "(\<forall>t. t \<in> fst ` set (index (build_inverted_index U docs kw)) \<longleftrightarrow>
        (\<exists>text \<in> set docs. t \<in> set (tokenize_kw U text kw))) \<and>
   (\<forall>(t, e) \<in> set (index (build_inverted_index U docs kw)).
      \<forall>(d, l) \<in> set (postings e). l \<noteq> [] \<and> sorted_wrt (<) l) \<and>
   (\<forall>(t, e) \<in> set (index (build_inverted_index U docs kw)).
      df e = int (card (fst ` set (postings e))))"
proof (intro conjI allI)
  let ?idx = "build_inverted_index U docs kw"
  note wf = wf_vocab_build [of U docs kw]
  fix t
  show "t \<in> fst ` set (index ?idx) \<longleftrightarrow> (\<exists>text \<in> set docs. t \<in> set (tokenize_kw U text kw))"
  proof
    assume "t \<in> fst ` set (index ?idx)"
    then obtain e where e: "(t, e) \<in> set (index ?idx)" by auto
    with wf have "postings e \<noteq> []"
      unfolding wf_vocab_def by (metis map_of_eq_Some_iff)
    then obtain d l where "(d, l) \<in> set (postings e)"
      by (cases "postings e") auto
    from build_positions [OF e this] obtain i where "i < length docs"
      "positions_in t (py_enumerate (tokenize_kw U (docs ! i) kw)) \<noteq> []"
      by auto
    then show "\<exists>text \<in> set docs. t \<in> set (tokenize_kw U text kw)"
      by (auto simp: positions_in_nonempty)
  next
    assume "\<exists>text \<in> set docs. t \<in> set (tokenize_kw U text kw)"
    then obtain doc where "doc \<in> set docs" "t \<in> set (tokenize_kw U doc kw)"
      by blast
    then obtain i where i: "i < length docs" "t \<in> set (tokenize_kw U (docs ! i) kw)"
      by (metis in_set_conv_nth)
    then have "lookup_positions (index ?idx) t (IntKey (int i)) \<noteq> []"
      by (simp add: lookup_build positions_in_nonempty)
    then have "map_of (index ?idx) t \<noteq> None"
      by (auto simp: lookup_positions_def split: option.splits)
    then show "t \<in> fst ` set (index ?idx)"
      by (simp add: map_of_eq_None_iff)
  qed
next
  show "\<forall>(t, e) \<in> set (index (build_inverted_index U docs kw)).
      \<forall>(d, l) \<in> set (postings e). l \<noteq> [] \<and> sorted_wrt (<) l"
    using build_positions [of _ _ U docs kw] positions_in_sorted by fastforce
next
  show "\<forall>(t, e) \<in> set (index (build_inverted_index U docs kw)).
      df e = int (card (fst ` set (postings e)))"
  proof (intro ballI, clarify)
    fix t e assume e: "(t, e) \<in> set (index (build_inverted_index U docs kw))"
    with wf_vocab_build [of U docs kw] have "distinct (map fst (postings e))"
      unfolding wf_vocab_def by (metis map_of_eq_Some_iff)
    then have "card (fst ` set (postings e)) = length (postings e)"
      using distinct_card [of "map fst (postings e)"] by simp
    with df_build [OF e] show "df e = int (card (fst ` set (postings e)))"
      by simp
  qed
qed

theorem build_invariants_witness:
  "ustr ''cat'' \<in> set (tokenize_kw unicode_sample (ustr ''the cat sat'')
                        (scenario_kw True False (ustr ''id''))) \<and>
   ustr ''cat'' \<in> fst ` set (index scenario_index) \<and>
   (ustr ''cat'', \<lparr>df = 2, postings = [(IntKey 0, [1]), (IntKey 2, [0])]\<rparr>)
     \<in> set (index scenario_index) \<and>
   [1::int] \<noteq> [] \<and> sorted_wrt (<) [1::int] \<and>
   (2::int) = int (card (fst ` set [(IntKey 0, [1::int]), (IntKey 2, [0])]))"
proof -
  note inv = build_invariants [of unicode_sample scenario_corpus "scenario_kw True False (ustr ''id'')",
      folded scenario_index_def]
  have d: "ustr ''the cat sat'' \<in> set scenario_corpus"
    by (simp add: scenario_corpus_def)
  have t: "ustr ''cat'' \<in> set (tokenize_kw unicode_sample (ustr ''the cat sat'')
                                (scenario_kw True False (ustr ''id'')))"
    by (simp add: ustr_def scenario_tokens [OF basic_latin_sample])
  from inv d t have k: "ustr ''cat'' \<in> fst ` set (index scenario_index)"
    by blast
  have m: "(ustr ''cat'', \<lparr>df = 2, postings = [(IntKey 0, [1]), (IntKey 2, [0])]\<rparr>)
      \<in> set (index scenario_index)"
    by (simp add: scenario_index_eq)
  from inv m have "[1::int] \<noteq> [] \<and> sorted_wrt (<) [1::int]"
    by fastforce
  moreover from inv m have "(2::int) = int (card (fst ` set [(IntKey 0, [1::int]), (IntKey 2, [0])]))"
    by fastforce
  ultimately show ?thesis using t k m by blast
qed

section \<open>The normalizer against the specification\<close>

lemma reference_squeeze_in_run:
  "reference_squeeze P True s = reference_squeeze P False (dropWhile P s)"
  by (induction s) simp_all

lemma reference_squeeze_sub_runs: "reference_squeeze P False s = sub_runs P s"
  by (induction P s rule: sub_runs.induct) (simp_all add: reference_squeeze_in_run)

lemma reference_words_split:
  "reference_words [] s = split s \<and>
   (w \<noteq> [] \<longrightarrow> reference_words w s =
      (rev w @ takeWhile (\<lambda>c. \<not> isspace c) s) # split (dropWhile (\<lambda>c. \<not> isspace c) s))"
proof (induction s arbitrary: w)
  case Nil
  then show ?case by (simp add: split_Nil)
next
  case (Cons c cs)
  from Cons [of "[c]"] Cons [of "c # w"] Cons [of w]
  show ?case
    by (simp add: split_Cons)
qed

lemma map_fst_py_enumerate: "map fst (py_enumerate xs) = map int [0..<length xs]"
  by (simp add: py_enumerate_def)

text \<open>
  C8 as the specification states it: for every input and every combination of options,
  \<open>tokenize\<close> is the pipeline that strips the runs of ASCII digits. It fails on a text
  with a decimal digit outside ASCII: the pattern of the code is the class of all
  decimal digits of the runtime's database, which has U+0663 (ARABIC-INDIC DIGIT THREE)
  in it. With digit removal on, the code splits the text a, U+0663, b into the tokens a
  and b; the pipeline of the specification leaves it whole.
\<close>

theorem tokenize_differs_from_ascii_reference:
  "tokenize unicode_sample [97, 1635, 98] False True False (ustr ''id'') False \<noteq>
   reference_tokenize ascii_digit unicode_sample [97, 1635, 98] False True False (ustr ''id'') False \<and>
   tokenize unicode_sample [97, 1635, 98] False True False (ustr ''id'') False = [[97], [98]] \<and>
   reference_tokenize ascii_digit unicode_sample [97, 1635, 98] False True False (ustr ''id'') False =
     [[97, 1635, 98]]"
  by (simp add: eval_str eval_tok reference_tokenize_def)

text \<open>
  C8, amended. For every input and every combination of options, \<open>tokenize\<close> is the
  pipeline: lower the case, then replace each run of decimal digits (the digit class of
  the runtime's database, which includes the ASCII digits) by a single space, then replace
  each character that is neither a word character nor whitespace by a space, each only
  if enabled and in that order; collapse the runs of whitespace and trim; split on
  whitespace; then, if stopword filtering is enabled, drop the tokens that are in the
  selected stopword set. The empty input yields the empty sequence (the database lowers
  the empty string to itself), and the positions that the builder gives the tokens are
  0, 1, 2, ... over the filtered sequence.
\<close>

theorem tokenize_is_reference:
  "tokenize U text lc rd rp lng st = reference_tokenize (is_digit U) U text lc rd rp lng st \<and>
   (to_lower U [] = [] \<longrightarrow> tokenize U [] lc rd rp lng st = []) \<and>
   map fst (py_enumerate (tokenize U text lc rd rp lng st)) =
     map int [0..<length (tokenize U text lc rd rp lng st)]"
proof -
  have p: "\<And>s. sub_punct (is_word U) s = map (\<lambda>c. if is_word U c \<or> isspace c then c else 32) s"
    by (simp add: sub_punct_def)
  have w: "\<And>s. (if s \<noteq> [] then split s else []) = reference_words [] s"
    by (simp add: reference_words_split split_Nil)
  have "tokenize U text lc rd rp lng st = reference_tokenize (is_digit U) U text lc rd rp lng st"
    unfolding tokenize_def reference_tokenize_def Let_def reference_squeeze_sub_runs p w
    by simp
  moreover have "to_lower U [] = [] \<longrightarrow> tokenize U [] lc rd rp lng st = []"
    by (simp add: tokenize_def Let_def sub_punct_def strip_def split_Nil)
  ultimately show ?thesis
    by (simp only: map_fst_py_enumerate simp_thms)
qed

theorem tokenize_is_reference_witness:
  "to_lower unicode_sample [] = [] \<and>
   tokenize unicode_sample [] True True True (ustr ''en'') True = [] \<and>
   reference_tokenize (is_digit unicode_sample) unicode_sample
     (ustr ''The 2 cats, 10 Dogs!'') True True True (ustr ''en'') True =
     [ustr ''cats'', ustr ''dogs''] \<and>
   tokenize unicode_sample (ustr ''The 2 cats, 10 Dogs!'') True True True (ustr ''en'') True =
     [ustr ''cats'', ustr ''dogs'']"
proof -
  have l: "to_lower unicode_sample [] = []"
    by (simp add: unicode_sample_def)
  have r: "tokenize unicode_sample (ustr ''The 2 cats, 10 Dogs!'') True True True (ustr ''en'') True =
     [ustr ''cats'', ustr ''dogs'']"
    by (simp add: eval_str eval_tok STOPWORDS_EN_def)
  note t = tokenize_is_reference [of unicode_sample _ True True True "ustr ''en''" True]
  from t [of "[]"] l have "tokenize unicode_sample [] True True True (ustr ''en'') True = []"
    by blast
  moreover from t [of "ustr ''The 2 cats, 10 Dogs!''"] r
  have "reference_tokenize (is_digit unicode_sample) unicode_sample
     (ustr ''The 2 cats, 10 Dogs!'') True True True (ustr ''en'') True =
     [ustr ''cats'', ustr ''dogs'']"
    by simp
  ultimately show ?thesis using l r by blast
qed

section \<open>Saving and loading\<close>

lemma digits_small: "n < 10 \<Longrightarrow> digits n = [48 + n]"
  by (simp add: digits.simps)

lemmas eval_json = json_dumps_def entry_to_json_def postings_to_json_def key_str_def repr_int_def
  digits_small load_index_def load_entry_def load_postings_def load_members_def
  load_positions_def load_int_def dict_of_def

lemma load_scenario: "load_index (json_dumps scenario_index) = Some scenario_loaded"
  by (simp add: scenario_index_eq scenario_loaded_def eval_json ustr_def)

lemma universe_loaded: "universe scenario_loaded = {IntKey 0, IntKey 1, IntKey 2}"
proof -
  have "{0..<3::int} = {0, 1, 2}" by auto
  then show ?thesis by (simp add: universe_def scenario_loaded_def)
qed

lemma term_docs_loaded:
  "term_docs scenario_loaded (ustr ''cat'') = {StrKey (ustr ''0''), StrKey (ustr ''2'')}"
  by (simp add: term_docs_def scenario_loaded_def ustr_def)

lemma not_cat:
  "boolean_search (ustr ''NOT cat'') idx = Inr (universe idx - term_docs idx (ustr ''cat''))"
  by (simp add: boolean_search_def eval_str eval_bool)

text \<open>
  What the round trip does in general, for every index that was built: the loader
  accepts the document, and the index it returns is the built one with each document id
  replaced by its decimal string. The terms, df, cf, the position lists and num_docs are
  the same; the keys of the postings are not.
\<close>

lemma digits_value: "foldl (\<lambda>a c. 10 * a + (c - 48)) 0 (digits n) = n"
proof (induction n rule: digits.induct)
  case (1 n)
  show ?case
  proof (cases "n < 10")
    case True
    then show ?thesis by (simp add: digits_small)
  next
    case False
    then have "digits n = digits (n div 10) @ [48 + n mod 10]"
      by (subst digits.simps) simp
    with 1 False show ?thesis by simp
  qed
qed

lemma digits_inj: "digits m = digits n \<Longrightarrow> m = n"
  by (metis digits_value)

lemma update_fresh: "k \<notin> fst ` set al \<Longrightarrow> AList.update k v al = al @ [(k, v)]"
  by (induction al) auto

lemma fold_update_distinct:
  "distinct (map fst (acc @ xs)) \<Longrightarrow>
   fold (\<lambda>kv d. AList.update (fst kv) (snd kv) d) xs acc = acc @ xs"
proof (induction xs arbitrary: acc)
  case Nil
  then show ?case by simp
next
  case (Cons x xs)
  from Cons.prems have "fst x \<notin> fst ` set acc"
    by auto
  then have "AList.update (fst x) (snd x) acc = acc @ [x]"
    by (simp add: update_fresh)
  moreover from Cons.prems have "distinct (map fst ((acc @ [x]) @ xs))"
    by simp
  ultimately show ?case
    using Cons.IH [of "acc @ [x]"] by simp
qed

lemma dict_of_distinct: "distinct (map fst xs) \<Longrightarrow> dict_of xs = xs"
  using fold_update_distinct [of "[]" xs] by (simp add: dict_of_def)

lemma those_map_Some: "those (map (\<lambda>x. Some (f x)) xs) = Some (map f xs)"
  by (induction xs) simp_all

lemma load_members_map:
  assumes "\<And>x. x \<in> set xs \<Longrightarrow> f (g (snd x)) = Some (h (snd x))"
  shows "load_members f (map (\<lambda>x. (k x, g (snd x))) xs) = Some (map (\<lambda>x. (k x, h (snd x))) xs)"
proof -
  have "map (\<lambda>kj. case f (snd kj) of None \<Rightarrow> None | Some v \<Rightarrow> Some (fst kj, v))
          (map (\<lambda>x. (k x, g (snd x))) xs) = map (\<lambda>x. Some (k x, h (snd x))) xs"
    using assms by simp
  then show ?thesis
    by (simp only: load_members_def those_map_Some)
qed

lemma load_positions_dump: "load_positions (JArr (map JInt l)) = Some l"
proof -
  have "map load_int (map JInt l) = map (\<lambda>x. Some x) l"
    by (simp add: load_int_def)
  then have "those (map load_int (map JInt l)) = Some (map (\<lambda>x. x) l)"
    by (simp only: those_map_Some)
  then show ?thesis
    by (simp add: load_positions_def del: map_map)
qed

lemma load_postings_dump:
  assumes "distinct (map (\<lambda>kp. key_str (fst kp)) ps)"
  shows "load_postings (postings_to_json ps) = Some (stringify_postings ps)"
proof -
  have m: "load_members load_positions (map (\<lambda>kp. (key_str (fst kp), JArr (map JInt (snd kp)))) ps) =
        Some (map (\<lambda>kp. (key_str (fst kp), snd kp)) ps)"
    by (rule load_members_map) (simp add: load_positions_dump)
  have "distinct (map fst (stringify_postings ps))"
    using assms by (simp add: stringify_postings_def distinct_map comp_def inj_on_def)
  then have "dict_of (stringify_postings ps) = stringify_postings ps"
    by (rule dict_of_distinct)
  then show ?thesis
    by (simp add: load_postings_def postings_to_json_def m stringify_postings_def comp_def)
qed

lemma load_entry_dump:
  assumes "distinct (map (\<lambda>kp. key_str (fst kp)) (postings e))"
  shows "load_entry (entry_to_json e) = Some (e\<lparr>postings := stringify_postings (postings e)\<rparr>)"
proof -
  have "dict_of [(ustr ''df'', JInt (df e)), (ustr ''postings'', postings_to_json (postings e))] =
        [(ustr ''df'', JInt (df e)), (ustr ''postings'', postings_to_json (postings e))]"
    by (rule dict_of_distinct) (simp add: ustr_def)
  then show ?thesis
    by (simp add: load_entry_def entry_to_json_def load_postings_dump [OF assms] load_int_def ustr_def)
qed

lemma load_index_dump:
  assumes "distinct (map fst (index idx))"
    "\<And>t e. (t, e) \<in> set (index idx) \<Longrightarrow> distinct (map (\<lambda>kp. key_str (fst kp)) (postings e))"
  shows "load_index (json_dumps idx) = Some (stringify_keys idx)"
proof -
  let ?terms = "map (\<lambda>te. (fst te, entry_to_json (snd te))) (index idx)"
  let ?loaded = "map (\<lambda>te. (fst te, (snd te)\<lparr>postings := stringify_postings (postings (snd te))\<rparr>)) (index idx)"
  have top: "dict_of [(ustr ''index'', JObj ?terms), (ustr ''num_docs'', JInt (num_docs idx))] =
        [(ustr ''index'', JObj ?terms), (ustr ''num_docs'', JInt (num_docs idx))]"
    by (rule dict_of_distinct) (simp add: ustr_def)
  have m: "load_members load_entry ?terms = Some ?loaded"
    by (rule load_members_map) (metis load_entry_dump assms(2) prod.collapse)
  have "distinct (map fst ?loaded)"
    using assms(1) by (simp add: comp_def)
  then have d: "dict_of ?loaded = ?loaded"
    by (rule dict_of_distinct)
  have "stringify_keys idx = \<lparr>index = ?loaded, num_docs = num_docs idx\<rparr>"
    by (simp add: stringify_keys_def)
  then show ?thesis
    unfolding load_index_def json_dumps_def
    by (simp only: json.case top) (simp add: m d ustr_def)
qed


lemma key_str_built:
  assumes "(t, e) \<in> set (index (build_inverted_index U docs kw))"
  shows "distinct (map (\<lambda>kp. key_str (fst kp)) (postings e))"
proof -
  from wf_vocab_build [of U docs kw] assms have d: "distinct (map fst (postings e))"
    unfolding wf_vocab_def by (metis map_of_eq_Some_iff)
  have "inj_on key_str (fst ` set (postings e))"
  proof (rule inj_onI)
    fix a b assume a: "a \<in> fst ` set (postings e)" and b: "b \<in> fst ` set (postings e)"
      and eq: "key_str a = key_str b"
    from a build_positions [OF assms] obtain i where i: "a = IntKey (int i)" by force
    from b build_positions [OF assms] obtain j where j: "b = IntKey (int j)" by force
    from eq have "digits i = digits j"
      by (simp add: i j key_str_def repr_int_def)
    then show "a = b"
      by (simp add: i j digits_inj)
  qed
  with d have "distinct (map key_str (map fst (postings e)))"
    by (subst distinct_map) simp
  then show ?thesis
    by (simp add: comp_def)
qed

lemma round_trip_built:
  "load_index (json_dumps (build_inverted_index U docs kw)) =
     Some (stringify_keys (build_inverted_index U docs kw))"
proof (rule load_index_dump)
  show "distinct (map fst (index (build_inverted_index U docs kw)))"
    using wf_vocab_build [of U docs kw] by (simp add: wf_vocab_def)
qed (rule key_str_built)

lemma stringify_keys_preserves:
  "num_docs (stringify_keys idx) = num_docs idx"
  "map fst (index (stringify_keys idx)) = map fst (index idx)"
  "map (df \<circ> snd) (index (stringify_keys idx)) = map (df \<circ> snd) (index idx)"
  "map (cf \<circ> snd) (index (stringify_keys idx)) = map (cf \<circ> snd) (index idx)"
  "map (map snd \<circ> postings \<circ> snd) (index (stringify_keys idx)) =
     map (map snd \<circ> postings \<circ> snd) (index idx)"
  by (simp_all add: stringify_keys_def stringify_postings_def cf_def comp_def)

text \<open>
  C2 says that an index saved as JSON and loaded again has the same postings, with the
  same document ids as keys, and cannot be told from the index that was built. The code
  does otherwise: the loaded index has the decimal strings "0", "1", "2" as keys where
  the built one has the integers 0, 1, 2, and nothing converts them back. The two
  indexes differ, and so do the searches on them: the universe of NOT is a set of
  integers, so on the loaded index "NOT cat" returns every document.
\<close>

theorem round_trip_changes_keys:
  "load_index (json_dumps scenario_index) = Some scenario_loaded \<and>
   scenario_loaded \<noteq> scenario_index \<and>
   map_of (index scenario_index) (ustr ''cat'') =
     Some \<lparr>df = 2, postings = [(IntKey 0, [1]), (IntKey 2, [0])]\<rparr> \<and>
   map_of (index scenario_loaded) (ustr ''cat'') =
     Some \<lparr>df = 2, postings = [(StrKey (ustr ''0''), [1]), (StrKey (ustr ''2''), [0])]\<rparr> \<and>
   boolean_search (ustr ''NOT cat'') scenario_index = Inr {IntKey 1} \<and>
   boolean_search (ustr ''NOT cat'') scenario_loaded = Inr {IntKey 0, IntKey 1, IntKey 2}"
proof -
  have "scenario_loaded \<noteq> scenario_index"
    by (simp add: scenario_index_eq scenario_loaded_def)
  moreover have "map_of (index scenario_index) (ustr ''cat'') =
     Some \<lparr>df = 2, postings = [(IntKey 0, [1]), (IntKey 2, [0])]\<rparr>"
    by (simp add: scenario_index_eq ustr_def)
  moreover have "map_of (index scenario_loaded) (ustr ''cat'') =
     Some \<lparr>df = 2, postings = [(StrKey (ustr ''0''), [1]), (StrKey (ustr ''2''), [0])]\<rparr>"
    by (simp add: scenario_loaded_def ustr_def)
  moreover have "boolean_search (ustr ''NOT cat'') scenario_index = Inr {IntKey 1}"
    by (auto simp: not_cat universe_scenario term_docs_scenario)
  moreover have "boolean_search (ustr ''NOT cat'') scenario_loaded = Inr {IntKey 0, IntKey 1, IntKey 2}"
    by (auto simp: not_cat universe_loaded term_docs_loaded)
  ultimately show ?thesis
    using load_scenario by blast
qed

end
